theory Spec2Isabelle
  imports Main "HOL-Library.AList" "HOL-Library.Product_Lexorder"
begin

section \<open>The crossword solver of generate.py\<close>

text \<open>
  The engine of \<^verbatim>\<open>generate.py\<close> (class \<^verbatim>\<open>CrosswordCreator\<close>) is embedded as
  functions over an explicit Domain Store. The module \<^verbatim>\<open>crossword\<close> that the file
  imports is not part of the sources: its \<^verbatim>\<open>Variable\<close> and \<^verbatim>\<open>Crossword\<close> objects are
  data here, and the table of overlaps and the neighbour function are fields of the
  crossword record, so every theorem holds for whatever that module computes.

  A Python \<^verbatim>\<open>set\<close> is a list without duplicates that gives the elements in the order the
  set iterates them; a \<^verbatim>\<open>dict\<close> is an association list in insertion order. An exception
  is the left injection of a sum.
\<close>

subsection \<open>Data\<close>

datatype direction = ACROSS | DOWN

datatype variable =
  Variable (var_i: int) (var_j: int) (var_direction: direction) (var_length: int)

record crossword =
  variables :: "variable list"
  words :: "string list"
  overlaps :: "variable \<times> variable \<Rightarrow> (nat \<times> nat) option"
  neighbors :: "variable \<Rightarrow> variable list"

datatype error = KeyError | IndexError | TypeError

type_synonym domains = "(variable \<times> string list) list"

type_synonym assignment = "(variable \<times> string) list"

text \<open>Objects that can be hashed and compared with each other: words and slots.\<close>

datatype pyobj = Str string | Slot variable

text \<open>\<^verbatim>\<open>d[k]\<close> on a dict raises KeyError for a missing key.\<close>

definition getitem :: "('k \<times> 'v) list \<Rightarrow> 'k \<Rightarrow> error + 'v" where
  "getitem d k = (case map_of d k of None \<Rightarrow> Inl KeyError | Some v \<Rightarrow> Inr v)"

text \<open>\<^verbatim>\<open>s[n]\<close> on a string, for an offset \<open>n \<ge> 0\<close>, raises IndexError past the end.\<close>

definition index :: "string \<Rightarrow> nat \<Rightarrow> error + char" where
  "index s n = (if n < length s then Inr (s ! n) else Inl IndexError)"

text \<open>\<^verbatim>\<open>__init__\<close>: every slot starts with a copy of the whole vocabulary.\<close>

definition creator_init :: "crossword \<Rightarrow> domains" where
  "creator_init cw = map (\<lambda>var. (var, words cw)) (variables cw)"

subsection \<open>Node consistency\<close>

text \<open>
  The inner loop of \<^verbatim>\<open>enforce_node_consistency\<close> walks a copy of the slot's
  domain and removes from the store each word whose length is not the slot's.
\<close>

fun remove_wrong_length :: "variable \<Rightarrow> string list \<Rightarrow> domains \<Rightarrow> domains" where
  "remove_wrong_length domain [] ds = ds"
| "remove_wrong_length domain (node # dom_copy) ds =
     (if int (length node) \<noteq> var_length domain
      then remove_wrong_length domain dom_copy (AList.map_entry domain (removeAll node) ds)
      else remove_wrong_length domain dom_copy ds)"

fun enforce_loop :: "variable list \<Rightarrow> domains \<Rightarrow> error + domains" where
  "enforce_loop [] ds = Inr ds"
| "enforce_loop (domain # rest) ds =
     (case getitem ds domain of
        Inl e \<Rightarrow> Inl e
      | Inr dom_copy \<Rightarrow> enforce_loop rest (remove_wrong_length domain dom_copy ds))"

definition enforce_node_consistency :: "domains \<Rightarrow> error + domains" where
  "enforce_node_consistency ds = enforce_loop (map fst ds) ds"

subsection \<open>Arc revision\<close>

text \<open>
  The inner loop of \<^verbatim>\<open>revise\<close> has no \<^verbatim>\<open>break\<close>: it reads \<^verbatim>\<open>node[overlap[0]]\<close> and
  \<^verbatim>\<open>node2[overlap[1]]\<close> for every \<open>node2\<close> of the copy of y's domain.
\<close>

fun find_match :: "nat \<times> nat \<Rightarrow> string \<Rightarrow> string list \<Rightarrow> bool \<Rightarrow> error + bool" where
  "find_match overlap node [] found = Inr found"
| "find_match overlap node (node2 # rest) found =
     (case index node (fst overlap) of
        Inl e \<Rightarrow> Inl e
      | Inr c \<Rightarrow>
          (case index node2 (snd overlap) of
             Inl e \<Rightarrow> Inl e
           | Inr c2 \<Rightarrow> find_match overlap node rest (if c = c2 then True else found)))"

fun revise_loop ::
  "variable \<Rightarrow> nat \<times> nat \<Rightarrow> string list \<Rightarrow> string list \<Rightarrow> domains \<Rightarrow> bool
    \<Rightarrow> error + (bool \<times> domains)" where
  "revise_loop x overlap [] domains_y ds revision = Inr (revision, ds)"
| "revise_loop x overlap (node # domains_x) domains_y ds revision =
     (case find_match overlap node domains_y False of
        Inl e \<Rightarrow> Inl e
      | Inr found \<Rightarrow>
          if \<not> found
          then revise_loop x overlap domains_x domains_y
                 (AList.map_entry x (removeAll node) ds) True
          else revise_loop x overlap domains_x domains_y ds revision)"

definition revise ::
  "crossword \<Rightarrow> variable \<Rightarrow> variable \<Rightarrow> domains \<Rightarrow> error + (bool \<times> domains)" where
  "revise cw x y ds =
     (case overlaps cw (x, y) of
        None \<Rightarrow> Inr (False, ds)
      | Some overlap \<Rightarrow>
          (case getitem ds x of
             Inl e \<Rightarrow> Inl e
           | Inr domains_x \<Rightarrow>
               (case getitem ds y of
                  Inl e \<Rightarrow> Inl e
                | Inr domains_y \<Rightarrow> revise_loop x overlap domains_x domains_y ds False)))"

subsection \<open>AC-3\<close>

definition total_size :: "domains \<Rightarrow> nat" where
  "total_size ds = sum_list (map (\<lambda>p. length (snd p)) ds)"

definition all_arcs :: "crossword \<Rightarrow> domains \<Rightarrow> (variable \<times> variable) list" where
  "all_arcs cw ds =
     concat (map (\<lambda>var. map (\<lambda>neighbor. (var, neighbor)) (neighbors cw var)) (map fst ds))"

text \<open>
  The worklist loop of \<^verbatim>\<open>ac3\<close>: \<^verbatim>\<open>arcs.pop(0)\<close> takes the head, new arcs are
  appended at the end.
\<close>

function ac3_loop ::
  "crossword \<Rightarrow> (variable \<times> variable) list \<Rightarrow> domains \<Rightarrow> error + (bool \<times> domains)" where
  "ac3_loop cw [] ds = Inr (True, ds)"
| "ac3_loop cw ((var1, var2) # arcs) ds =
     (case revise cw var1 var2 ds of
        Inl e \<Rightarrow> Inl e
      | Inr (revised, ds') \<Rightarrow>
          if revised then
            (case getitem ds' var1 of
               Inl e \<Rightarrow> Inl e
             | Inr d \<Rightarrow>
                 if d = [] then Inr (False, ds')
                 else ac3_loop cw
                        (arcs @ map (\<lambda>neighbor. (neighbor, var1))
                                  (filter (\<lambda>neighbor. neighbor \<noteq> var2) (neighbors cw var1)))
                        ds')
          else ac3_loop cw arcs ds')"
  by pat_completeness auto

text \<open>Every revision shrinks the store or leaves it alone, so the worklist loop ends.\<close>

lemma total_size_map_entry_le:
  "(\<And>d. length (f d) \<le> length d) \<Longrightarrow> total_size (AList.map_entry x f ds) \<le> total_size ds"
  by (induction ds) (auto simp: total_size_def add_le_mono)

lemma total_size_map_entry_less:
  "map_of ds x = Some d \<Longrightarrow> length (f d) < length d
    \<Longrightarrow> total_size (AList.map_entry x f ds) < total_size ds"
  by (induction ds) (auto simp: total_size_def split: if_splits)

lemma revise_loop_size_le:
  "revise_loop x ov dx dy ds rv = Inr (rv', ds') \<Longrightarrow> total_size ds' \<le> total_size ds"
proof (induction dx arbitrary: ds rv)
  case Nil
  then show ?case by simp
next
  case (Cons node dx)
  show ?case
  proof (cases "find_match ov node dy False")
    case (Inl e)
    with Cons.prems show ?thesis by simp
  next
    case (Inr found)
    show ?thesis
    proof (cases found)
      case True
      with Inr Cons.prems Cons.IH show ?thesis by simp
    next
      case False
      with Inr Cons.prems
      have "revise_loop x ov dx dy (AList.map_entry x (removeAll node) ds) True = Inr (rv', ds')"
        by simp
      from Cons.IH [OF this]
      have "total_size ds' \<le> total_size (AList.map_entry x (removeAll node) ds)" .
      also have "\<dots> \<le> total_size ds"
        by (rule total_size_map_entry_le) simp
      finally show ?thesis .
    qed
  qed
qed

lemma revise_loop_size_less:
  "revise_loop x ov dx dy ds rv = Inr (rv', ds') \<Longrightarrow> map_of ds x = Some d
    \<Longrightarrow> set dx \<subseteq> set d \<Longrightarrow> rv' \<noteq> rv \<Longrightarrow> total_size ds' < total_size ds"
proof (induction dx arbitrary: rv)
  case Nil
  then show ?case by simp
next
  case (Cons node dx)
  show ?case
  proof (cases "find_match ov node dy False")
    case (Inl e)
    with Cons.prems show ?thesis by simp
  next
    case (Inr found)
    show ?thesis
    proof (cases found)
      case True
      with Inr Cons.prems Cons.IH show ?thesis by simp
    next
      case False
      with Inr Cons.prems
      have "revise_loop x ov dx dy (AList.map_entry x (removeAll node) ds) True = Inr (rv', ds')"
        by simp
      then have "total_size ds' \<le> total_size (AList.map_entry x (removeAll node) ds)"
        by (rule revise_loop_size_le)
      also have "\<dots> < total_size ds"
        using Cons.prems(2,3) by (intro total_size_map_entry_less) (auto simp: length_removeAll_less)
      finally show ?thesis .
    qed
  qed
qed

lemma revise_size:
  assumes "revise cw x y ds = Inr (revised, ds')"
  shows "total_size ds' \<le> total_size ds" and "revised \<Longrightarrow> total_size ds' < total_size ds"
proof -
  show "total_size ds' \<le> total_size ds"
    using assms
    by (auto simp: revise_def getitem_def split: option.splits sum.splits
             dest: revise_loop_size_le)
  show "total_size ds' < total_size ds" if revised
    using assms that
    by (auto simp: revise_def getitem_def split: option.splits sum.splits
             dest: revise_loop_size_less)
qed

termination ac3_loop
proof (relation "measures [\<lambda>(cw, arcs, ds). total_size ds, \<lambda>(cw, arcs, ds). length arcs]")
  show "wf (measures [\<lambda>(cw, arcs, ds). total_size ds, \<lambda>(cw, arcs, ds). length arcs])"
    by simp
next
  fix cw var1 var2 arcs ds x2 revised ds' d
  assume "revise cw var1 var2 ds = Inr x2" "(revised, ds') = x2" revised
  then show "((cw, arcs @ map (\<lambda>neighbor. (neighbor, var1))
                (filter (\<lambda>neighbor. neighbor \<noteq> var2) (neighbors cw var1)), ds'),
              (cw, (var1, var2) # arcs, ds))
             \<in> measures [\<lambda>(cw, arcs, ds). total_size ds, \<lambda>(cw, arcs, ds). length arcs]"
    using revise_size(2) [of cw var1 var2 ds revised ds'] by simp
next
  fix cw var1 var2 arcs ds x2 revised ds'
  assume "revise cw var1 var2 ds = Inr x2" "(revised, ds') = x2" "\<not> revised"
  then show "((cw, arcs, ds'), (cw, (var1, var2) # arcs, ds))
             \<in> measures [\<lambda>(cw, arcs, ds). total_size ds, \<lambda>(cw, arcs, ds). length arcs]"
    using revise_size(1) [of cw var1 var2 ds revised ds'] by auto
qed

text \<open>
  \<^verbatim>\<open>ac3(arcs=None)\<close>. The test \<^verbatim>\<open>if not arcs\<close> holds for \<^verbatim>\<open>None\<close> and for the empty
  list alike.
\<close>

definition ac3 ::
  "crossword \<Rightarrow> (variable \<times> variable) list option \<Rightarrow> domains \<Rightarrow> error + (bool \<times> domains)" where
  "ac3 cw arcs ds =
     (if arcs = None \<or> arcs = Some []
      then ac3_loop cw (all_arcs cw ds) ds
      else ac3_loop cw (the arcs) ds)"

subsection \<open>Assignments\<close>

definition assignment_complete :: "domains \<Rightarrow> assignment \<Rightarrow> bool" where
  "assignment_complete ds a = (length (map fst a) = length (map fst ds))"

text \<open>
  The loop over the neighbours in \<^verbatim>\<open>consistent\<close>; \<open>Inr False\<close> is the early
  \<^verbatim>\<open>return False\<close>. \<^verbatim>\<open>overlap[1]\<close> on \<^verbatim>\<open>None\<close> is a TypeError, and the neighbour's word
  is indexed before the slot's own.
\<close>

fun check_neighbors ::
  "crossword \<Rightarrow> assignment \<Rightarrow> variable \<Rightarrow> string \<Rightarrow> variable list \<Rightarrow> error + bool" where
  "check_neighbors cw a variable value [] = Inr True"
| "check_neighbors cw a variable value (neighbor # rest) =
     (case map_of a neighbor of
        None \<Rightarrow> check_neighbors cw a variable value rest
      | Some neighbor_value \<Rightarrow>
          (case overlaps cw (variable, neighbor) of
             None \<Rightarrow> Inl TypeError
           | Some overlap \<Rightarrow>
               (case index neighbor_value (snd overlap) of
                  Inl e \<Rightarrow> Inl e
                | Inr c1 \<Rightarrow>
                    (case index value (fst overlap) of
                       Inl e \<Rightarrow> Inl e
                     | Inr c2 \<Rightarrow>
                         if c1 \<noteq> c2 then Inr False
                         else check_neighbors cw a variable value rest))))"

fun consistent_loop ::
  "crossword \<Rightarrow> assignment \<Rightarrow> (variable \<times> string) list \<Rightarrow> string list \<Rightarrow> error + bool" where
  "consistent_loop cw a [] used_values = Inr True"
| "consistent_loop cw a ((variable, value) # items) used_values =
     (if value \<in> set used_values then Inr False
      else if int (length value) \<noteq> var_length variable then Inr False
      else
        (case check_neighbors cw a variable value (neighbors cw variable) of
           Inl e \<Rightarrow> Inl e
         | Inr ok \<Rightarrow>
             if ok then consistent_loop cw a items (value # used_values) else Inr False))"

definition consistent :: "crossword \<Rightarrow> assignment \<Rightarrow> error + bool" where
  "consistent cw a = consistent_loop cw a a []"

subsection \<open>Ordering heuristics\<close>

text \<open>
  The innermost loop of \<^verbatim>\<open>order_domain_values\<close>. The second conjunct of its test asks
  whether the word \<open>value2\<close> is among the keys of the assignment, which are slots.
\<close>

fun count_values ::
  "(nat \<times> nat) option \<Rightarrow> assignment \<Rightarrow> string \<Rightarrow> string list \<Rightarrow> nat \<Rightarrow> error + nat" where
  "count_values intersection a value [] counter = Inr counter"
| "count_values intersection a value (value2 # rest) counter =
     (case intersection of
        None \<Rightarrow> Inl TypeError
      | Some overlap \<Rightarrow>
          (case index value (fst overlap) of
             Inl e \<Rightarrow> Inl e
           | Inr c \<Rightarrow>
               (case index value2 (snd overlap) of
                  Inl e \<Rightarrow> Inl e
                | Inr c2 \<Rightarrow>
                    count_values intersection a value rest
                      (if c \<noteq> c2 \<and> Str value2 \<notin> set (map (\<lambda>p. Slot (fst p)) a)
                       then counter + 1 else counter))))"

fun count_neighbors ::
  "crossword \<Rightarrow> domains \<Rightarrow> assignment \<Rightarrow> variable \<Rightarrow> string \<Rightarrow> variable list \<Rightarrow> nat
    \<Rightarrow> error + nat" where
  "count_neighbors cw ds a var value [] counter = Inr counter"
| "count_neighbors cw ds a var value (neighbor # rest) counter =
     (case getitem ds neighbor of
        Inl e \<Rightarrow> Inl e
      | Inr d \<Rightarrow>
          (case count_values (overlaps cw (var, neighbor)) a value d counter of
             Inl e \<Rightarrow> Inl e
           | Inr counter' \<Rightarrow> count_neighbors cw ds a var value rest counter'))"

fun count_all ::
  "crossword \<Rightarrow> domains \<Rightarrow> assignment \<Rightarrow> variable \<Rightarrow> string list
    \<Rightarrow> error + (string \<times> nat) list" where
  "count_all cw ds a var [] = Inr []"
| "count_all cw ds a var (value # rest) =
     (case count_neighbors cw ds a var value (neighbors cw var) 0 of
        Inl e \<Rightarrow> Inl e
      | Inr counter \<Rightarrow>
          (case count_all cw ds a var rest of
             Inl e \<Rightarrow> Inl e
           | Inr ordered_values \<Rightarrow> Inr ((value, counter) # ordered_values)))"

text \<open>\<^verbatim>\<open>list.sort(key=...)\<close> is a stable sort, as \<^const>\<open>sort_key\<close> is.\<close>

definition order_domain_values ::
  "crossword \<Rightarrow> domains \<Rightarrow> variable \<Rightarrow> assignment \<Rightarrow> error + string list" where
  "order_domain_values cw ds var a =
     (case getitem ds var of
        Inl e \<Rightarrow> Inl e
      | Inr d \<Rightarrow>
          (case count_all cw ds a var d of
             Inl e \<Rightarrow> Inl e
           | Inr ordered_values \<Rightarrow> Inr (map fst (sort_key snd ordered_values))))"

text \<open>
  \<^verbatim>\<open>select_unassigned_variable\<close>: the unassigned keys of the store, each with its own
  entry, sorted by domain size and then by the negated number of neighbours.
\<close>

definition select_unassigned_variable ::
  "crossword \<Rightarrow> domains \<Rightarrow> assignment \<Rightarrow> variable option" where
  "select_unassigned_variable cw ds a =
     (let unassigned_variables = filter (\<lambda>p. fst p \<notin> set (map fst a)) ds
      in if unassigned_variables = [] then None
         else Some (fst (hd (sort_key
                (\<lambda>p. (length (snd p), - int (length (neighbors cw (fst p)))))
                unassigned_variables))))"

subsection \<open>Backtracking search\<close>

text \<open>
  \<^verbatim>\<open>backtrack\<close> mutates the dict \<open>assignment\<close> it is given and the store; the model
  returns the returned value together with the final assignment and store. The first
  argument bounds the depth of the recursion: \<open>None\<close> means the bound was reached.
  \<open>try_values\<close> is the \<^verbatim>\<open>for value in ...\<close> loop; only its \<^verbatim>\<open>else\<close> branch deletes the
  entry of the selected slot.
\<close>

fun backtrack ::
  "nat \<Rightarrow> crossword \<Rightarrow> assignment \<Rightarrow> domains
    \<Rightarrow> (error + (assignment option \<times> assignment \<times> domains)) option"
and try_values ::
  "nat \<Rightarrow> crossword \<Rightarrow> variable \<Rightarrow> string list \<Rightarrow> assignment \<Rightarrow> domains
    \<Rightarrow> (error + (assignment option \<times> assignment \<times> domains)) option" where
  "backtrack 0 cw a ds = None"
| "backtrack (Suc n) cw a ds =
     (if assignment_complete ds a then Some (Inr (Some a, a, ds))
      else
        (case select_unassigned_variable cw ds a of
           None \<Rightarrow> Some (Inr (Some a, a, ds))
         | Some variable \<Rightarrow>
             (case order_domain_values cw ds variable a of
                Inl e \<Rightarrow> Some (Inl e)
              | Inr vals \<Rightarrow> try_values n cw variable vals a ds)))"
| "try_values n cw variable [] a ds = Some (Inr (None, a, ds))"
| "try_values n cw variable (value # rest) a ds =
     (let a1 = AList.update variable value a in
      case consistent cw a1 of
        Inl e \<Rightarrow> Some (Inl e)
      | Inr True \<Rightarrow>
          (case ac3 cw (Some (map (\<lambda>var. (var, variable)) (neighbors cw variable))) ds of
             Inl e \<Rightarrow> Some (Inl e)
           | Inr (inference_result, ds1) \<Rightarrow>
               if inference_result then
                 (case backtrack n cw a1 ds1 of
                    None \<Rightarrow> None
                  | Some (Inl e) \<Rightarrow> Some (Inl e)
                  | Some (Inr (result, a2, ds2)) \<Rightarrow>
                      if result \<noteq> None then Some (Inr (result, a2, ds2))
                      else try_values n cw variable rest a2 ds2)
               else try_values n cw variable rest a1 ds1)
      | Inr False \<Rightarrow> try_values n cw variable rest (AList.delete variable a1) ds)"

text \<open>\<^verbatim>\<open>solve\<close> ignores what \<^verbatim>\<open>ac3\<close> returns and searches from the empty dict.\<close>

definition solve :: "nat \<Rightarrow> crossword \<Rightarrow> (error + assignment option) option" where
  "solve fuel cw =
     (case enforce_node_consistency (creator_init cw) of
        Inl e \<Rightarrow> Some (Inl e)
      | Inr ds1 \<Rightarrow>
          (case ac3 cw None ds1 of
             Inl e \<Rightarrow> Some (Inl e)
           | Inr (inference_result, ds2) \<Rightarrow>
               (case backtrack fuel cw [] ds2 of
                  None \<Rightarrow> None
                | Some (Inl e) \<Rightarrow> Some (Inl e)
                | Some (Inr (result, a, ds3)) \<Rightarrow> Some (Inr result))))"

subsection \<open>Specification-level notions\<close>

text \<open>
  What the specification calls a complete consistent assignment: one word per slot, the
  words pairwise distinct, each as long as its slot, and every slot agreeing with each
  assigned neighbour at the overlap offsets.
\<close>

definition agree :: "crossword \<Rightarrow> assignment \<Rightarrow> variable \<Rightarrow> string \<Rightarrow> variable \<Rightarrow> bool" where
  "agree cw a x wx y =
     (case map_of a y of
        None \<Rightarrow> True
      | Some wy \<Rightarrow>
          (case overlaps cw (x, y) of
             None \<Rightarrow> False
           | Some (ox, oy) \<Rightarrow> ox < length wx \<and> oy < length wy \<and> wx ! ox = wy ! oy))"

definition spec_consistent :: "crossword \<Rightarrow> assignment \<Rightarrow> bool" where
  "spec_consistent cw a =
     (distinct (map snd a) \<and>
      list_all (\<lambda>(x, wx). int (length wx) = var_length x) a \<and>
      list_all (\<lambda>(x, wx). list_all (agree cw a x wx) (neighbors cw x)) a)"

definition spec_solution :: "crossword \<Rightarrow> assignment \<Rightarrow> bool" where
  "spec_solution cw a =
     (distinct (map fst a) \<and> set (map fst a) = set (variables cw) \<and>
      list_all (\<lambda>(x, wx). wx \<in> set (words cw)) a \<and> spec_consistent cw a)"

text \<open>
  The least-constraining-value count of the specification: over the neighbours of \<open>var\<close>
  that are not assigned, the candidates incompatible with \<open>w\<close> at the overlap.
\<close>

definition spec_eliminated ::
  "crossword \<Rightarrow> domains \<Rightarrow> assignment \<Rightarrow> variable \<Rightarrow> string \<Rightarrow> nat" where
  "spec_eliminated cw ds a var w =
     sum_list (map (\<lambda>n.
         (case (overlaps cw (var, n), map_of ds n) of
            (Some (ov, on), Some d) \<Rightarrow> length (filter (\<lambda>w2. w ! ov \<noteq> w2 ! on) d)
          | _ \<Rightarrow> 0))
       (filter (\<lambda>n. n \<notin> set (map fst a)) (neighbors cw var)))"

subsection \<open>Arc consistency\<close>

text \<open>
  A word \<open>wx\<close> of x and a word \<open>wy\<close> of y are compatible at the overlap when both reach
  their offset and carry the same letter there. The pair (x, y) is arc-consistent when
  every word of x's domain has a compatible word in y's domain.
\<close>

definition supports :: "nat \<times> nat \<Rightarrow> string \<Rightarrow> string \<Rightarrow> bool" where
  "supports ov wx wy = (fst ov < length wx \<and> snd ov < length wy \<and> wx ! fst ov = wy ! snd ov)"

definition arc_consistent :: "crossword \<Rightarrow> domains \<Rightarrow> variable \<Rightarrow> variable \<Rightarrow> bool" where
  "arc_consistent cw ds x y =
     (case overlaps cw (x, y) of
        None \<Rightarrow> True
      | Some ov \<Rightarrow>
          (case map_of ds x of
             None \<Rightarrow> True
           | Some dx \<Rightarrow>
               (case map_of ds y of
                  None \<Rightarrow> True
                | Some dy \<Rightarrow> list_all (\<lambda>wx. list_ex (supports ov wx) dy) dx)))"

text \<open>
  The invariants of the Constraint Model that the specification states: a neighbour of
  a slot is another slot of the model, the relation is symmetric, and the overlap of two
  neighbours is defined, symmetric, and inside the lengths of the two slots.
\<close>

definition well_formed :: "crossword \<Rightarrow> bool" where
  "well_formed cw =
     list_all (\<lambda>x. list_all (\<lambda>y.
         y \<noteq> x \<and> y \<in> set (variables cw) \<and> x \<in> set (neighbors cw y) \<and>
         (case overlaps cw (x, y) of
            None \<Rightarrow> False
          | Some (a, b) \<Rightarrow>
              overlaps cw (y, x) = Some (b, a) \<and> int a < var_length x \<and> int b < var_length y))
       (neighbors cw x)) (variables cw)"

text \<open>
  The state of the worklist loop of \<open>ac3\<close>: every arc from a slot of the store to a
  neighbour is either still on the worklist or arc-consistent.
\<close>

definition pending_or_consistent ::
  "crossword \<Rightarrow> (variable \<times> variable) list \<Rightarrow> domains \<Rightarrow> bool" where
  "pending_or_consistent cw arcs ds =
     (\<forall>x\<in>set (map fst ds). \<forall>y\<in>set (neighbors cw x).
        (x, y) \<in> set arcs \<or> arc_consistent cw ds x y)"

text \<open>
  The states the engine works on. A store is node-consistent when every word of every
  domain has the length of its slot; it is a store of the model when, in addition, its
  slots are the slots of the model. An assignment fits the model when it assigns slots
  of the model, each a word of the slot's length.
\<close>

definition node_consistent :: "domains \<Rightarrow> bool" where
  "node_consistent ds =
     list_all (\<lambda>x. case map_of ds x of
                     None \<Rightarrow> True
                   | Some d \<Rightarrow> list_all (\<lambda>w. int (length w) = var_length x) d) (map fst ds)"

definition store_ok :: "crossword \<Rightarrow> domains \<Rightarrow> bool" where
  "store_ok cw ds = (set (map fst ds) = set (variables cw) \<and> node_consistent ds)"

definition assign_ok :: "crossword \<Rightarrow> assignment \<Rightarrow> bool" where
  "assign_ok cw a =
     list_all (\<lambda>p. fst p \<in> set (variables cw) \<and> int (length (snd p)) = var_length (fst p)) a"

subsection \<open>Example grids\<close>

text \<open>Two slots of length 3 crossing at offsets (1, 0).\<close>

definition slot_across :: variable where "slot_across = Variable 0 0 ACROSS 3"
definition slot_down :: variable where "slot_down = Variable 0 1 DOWN 3"

definition crossing :: "string list \<Rightarrow> crossword" where
  "crossing vocabulary =
     \<lparr> variables = [slot_across, slot_down],
       words = vocabulary,
       overlaps = (\<lambda>p. if p = (slot_across, slot_down) then Some (1, 0)
                        else if p = (slot_down, slot_across) then Some (0, 1) else None),
       neighbors = (\<lambda>v. if v = slot_across then [slot_down]
                         else if v = slot_down then [slot_across] else []) \<rparr>"

text \<open>Two slots of length 1 that do not meet.\<close>

definition cell_a :: variable where "cell_a = Variable 0 0 ACROSS 1"
definition cell_b :: variable where "cell_b = Variable 2 0 ACROSS 1"

definition apart :: "string list \<Rightarrow> crossword" where
  "apart vocabulary =
     \<lparr> variables = [cell_a, cell_b], words = vocabulary,
       overlaps = (\<lambda>p. None), neighbors = (\<lambda>v. []) \<rparr>"

text \<open>
  Two across slots of length 2, in rows 0 and 2, and a down slot of length 3 through
  their first cells.
\<close>

definition row_top :: variable where "row_top = Variable 0 0 ACROSS 2"
definition row_bottom :: variable where "row_bottom = Variable 2 0 ACROSS 2"
definition column :: variable where "column = Variable 0 0 DOWN 3"

definition bridge :: "string list \<Rightarrow> crossword" where
  "bridge vocabulary =
     \<lparr> variables = [row_top, row_bottom, column],
       words = vocabulary,
       overlaps = (\<lambda>p. if p = (row_top, column) then Some (0, 0)
                        else if p = (column, row_top) then Some (0, 0)
                        else if p = (row_bottom, column) then Some (0, 2)
                        else if p = (column, row_bottom) then Some (2, 0) else None),
       neighbors = (\<lambda>v. if v = row_top then [column]
                         else if v = row_bottom then [column]
                         else if v = column then [row_top, row_bottom] else []) \<rparr>"

definition bridge_words :: "string list" where
  "bridge_words = [''AB'', ''CD'', ''EF'', ''GH'', ''AXA'', ''AYA'', ''CXE'', ''GXG'']"

section \<open>Properties of the operations\<close>

subsection \<open>Arc revision\<close>

lemma find_match_ok:
  "fst ov < length node \<Longrightarrow> \<forall>n2\<in>set dy. snd ov < length n2
    \<Longrightarrow> find_match ov node dy found =
        Inr (found \<or> (\<exists>n2\<in>set dy. node ! fst ov = n2 ! snd ov))"
  by (induction dy arbitrary: found) (auto simp: index_def)

lemma find_match_Nil: "find_match ov node [] found = Inr found"
  by simp

lemma map_entry_twice:
  "AList.map_entry x f (AList.map_entry x g ds) = AList.map_entry x (f \<circ> g) ds"
  by (induction ds) auto

lemma filter_removeAll_comp:
  "filter P \<circ> removeAll node = filter (\<lambda>w. w \<noteq> node \<and> P w)"
  by (auto simp: fun_eq_iff removeAll_filter_not_eq intro: filter_cong)

lemma revise_loop_ok:
  assumes "\<forall>w\<in>set dx. fst ov < length w" and "\<forall>w\<in>set dy. snd ov < length w"
  shows "revise_loop x ov dx dy ds rv =
    Inr (rv \<or> (\<exists>w\<in>set dx. \<not> (\<exists>wy\<in>set dy. w ! fst ov = wy ! snd ov)),
         AList.map_entry x
           (filter (\<lambda>w. w \<in> set dx \<longrightarrow> (\<exists>wy\<in>set dy. w ! fst ov = wy ! snd ov))) ds)"
  using assms
proof (induction dx arbitrary: ds rv)
  case Nil
  have "AList.map_entry x (\<lambda>d. d) ds = ds"
    by (induction ds) auto
  then show ?case by simp
next
  case (Cons node dx)
  let ?sup = "\<lambda>w. \<exists>wy\<in>set dy. w ! fst ov = wy ! snd ov"
  have fm: "find_match ov node dy False = Inr (?sup node)"
    using Cons.prems by (simp add: find_match_ok)
  have IH: "\<And>ds rv. revise_loop x ov dx dy ds rv =
      Inr (rv \<or> (\<exists>w\<in>set dx. \<not> ?sup w),
           AList.map_entry x (filter (\<lambda>w. w \<in> set dx \<longrightarrow> ?sup w)) ds)"
    using Cons.IH Cons.prems by simp
  show ?case
  proof (cases "?sup node")
    case True
    have "(\<lambda>w. w \<in> set (node # dx) \<longrightarrow> ?sup w) = (\<lambda>w. w \<in> set dx \<longrightarrow> ?sup w)"
      using True by auto
    then show ?thesis using True fm IH by auto
  next
    case False
    have "filter (\<lambda>w. w \<in> set dx \<longrightarrow> ?sup w) \<circ> removeAll node =
          filter (\<lambda>w. w \<in> set (node # dx) \<longrightarrow> ?sup w)"
      unfolding filter_removeAll_comp using False by (intro ext filter_cong) auto
    then show ?thesis using False fm IH by (auto simp: map_entry_twice)
  qed
qed

lemma map_fst_map_entry: "map fst (AList.map_entry x f ds) = map fst ds"
  by (induction ds) auto

lemma map_of_map_entry_same:
  "map_of ds x = Some d \<Longrightarrow> map_of (AList.map_entry x f ds) x = Some (f d)"
  by (simp add: map_of_map_entry)

lemma map_of_map_entry_other:
  "z \<noteq> x \<Longrightarrow> map_of (AList.map_entry x f ds) z = map_of ds z"
  by (simp add: map_of_map_entry)


subsection \<open>The consistency check\<close>

lemma check_neighbors_True:
  "check_neighbors cw a x wx nbs = Inr True \<Longrightarrow> list_all (agree cw a x wx) nbs"
proof (induction nbs)
  case Nil
  then show ?case by simp
next
  case (Cons y nbs)
  show ?case
  proof (cases "map_of a y")
    case None
    with Cons show ?thesis by (simp add: agree_def)
  next
    case (Some wy)
    with Cons.prems obtain ox oy where ov: "overlaps cw (x, y) = Some (ox, oy)"
      by (cases "overlaps cw (x, y)") auto
    from Cons.prems Some ov have "oy < length wy \<and> ox < length wx \<and> wy ! oy = wx ! ox \<and>
        check_neighbors cw a x wx nbs = Inr True"
      by (auto simp: index_def split: if_splits)
    with Cons.IH Some ov show ?thesis by (simp add: agree_def)
  qed
qed

lemma consistent_loop_True:
  "consistent_loop cw a items used = Inr True \<Longrightarrow>
     distinct (map snd items) \<and> set (map snd items) \<inter> set used = {} \<and>
     list_all (\<lambda>(x, wx). int (length wx) = var_length x) items \<and>
     list_all (\<lambda>(x, wx). list_all (agree cw a x wx) (neighbors cw x)) items"
proof (induction items arbitrary: used)
  case Nil
  then show ?case by simp
next
  case (Cons p items)
  obtain x wx where p: "p = (x, wx)" by (cases p)
  from Cons.prems p have 1: "wx \<notin> set used" "int (length wx) = var_length x"
    by (auto split: if_splits)
  from Cons.prems p 1 have 2: "check_neighbors cw a x wx (neighbors cw x) = Inr True"
    by (auto split: sum.splits if_splits)
  from Cons.prems p 1 2 have 3: "consistent_loop cw a items (wx # used) = Inr True"
    by simp
  from Cons.IH [OF 3] 1 2 p show ?case
    by (auto dest: check_neighbors_True)
qed

lemma consistent_True: "consistent cw a = Inr True \<Longrightarrow> spec_consistent cw a"
  unfolding consistent_def spec_consistent_def by (drule consistent_loop_True) simp

lemma consistent_Nil: "consistent cw [] = Inr True"
  by (simp add: consistent_def)

subsection \<open>The keys of the store\<close>

lemma revise_loop_keys:
  "revise_loop x ov dx dy ds rv = Inr (rv', ds') \<Longrightarrow> map fst ds' = map fst ds"
  by (induction dx arbitrary: ds rv) (auto simp: map_fst_map_entry split: sum.splits if_splits)

lemma revise_keys: "revise cw x y ds = Inr (r, ds') \<Longrightarrow> map fst ds' = map fst ds"
  by (auto simp: revise_def dest: revise_loop_keys split: option.splits sum.splits)

lemma ac3_loop_keys: "ac3_loop cw arcs ds = Inr (b, ds') \<Longrightarrow> map fst ds' = map fst ds"
proof (induction cw arcs ds rule: ac3_loop.induct)
  case (1 cw ds)
  then show ?case by simp
next
  case (2 cw var1 var2 arcs ds)
  from "2.prems" obtain revised ds1 where r: "revise cw var1 var2 ds = Inr (revised, ds1)"
    by (auto split: sum.splits)
  then have k: "map fst ds1 = map fst ds" by (rule revise_keys)
  show ?case
  proof (cases revised)
    case False
    with "2.prems" r "2.IH"(2) [OF r refl] k show ?thesis by simp
  next
    case True
    with "2.prems" r obtain d where d: "getitem ds1 var1 = Inr d"
      by (auto split: sum.splits)
    show ?thesis
    proof (cases "d = []")
      case True
      with "2.prems" r d \<open>revised\<close> k show ?thesis by simp
    next
      case False
      with "2.prems" r d \<open>revised\<close> "2.IH"(1) [OF r refl \<open>revised\<close> d False] k
      show ?thesis by simp
    qed
  qed
qed

lemma ac3_keys: "ac3 cw arcs ds = Inr (b, ds') \<Longrightarrow> map fst ds' = map fst ds"
  by (auto simp: ac3_def dest: ac3_loop_keys split: if_splits)

lemma remove_wrong_length_keys: "map fst (remove_wrong_length v d ds) = map fst ds"
  by (induction d arbitrary: ds) (auto simp: map_fst_map_entry)

lemma enforce_loop_keys: "enforce_loop vs ds = Inr ds' \<Longrightarrow> map fst ds' = map fst ds"
  by (induction vs arbitrary: ds) (auto simp: remove_wrong_length_keys split: sum.splits)

lemma enforce_node_consistency_keys:
  "enforce_node_consistency ds = Inr ds' \<Longrightarrow> map fst ds' = map fst ds"
  by (auto simp: enforce_node_consistency_def dest: enforce_loop_keys)

lemma creator_init_keys: "map fst (creator_init cw) = variables cw"
  by (simp add: creator_init_def comp_def)

subsection \<open>Selection\<close>

lemma select_unassigned_variable_Some:
  assumes "select_unassigned_variable cw ds a = Some v"
  shows "v \<in> set (map fst ds)" and "v \<notin> set (map fst a)"
proof -
  let ?u = "filter (\<lambda>p. fst p \<notin> set (map fst a)) ds"
  let ?s = "sort_key (\<lambda>p. (length (snd p), - int (length (neighbors cw (fst p))))) ?u"
  from assms have ne: "?u \<noteq> []" and v: "v = fst (hd ?s)"
    by (auto simp: select_unassigned_variable_def Let_def split: if_splits)
  have "length ?s = length ?u" by (rule length_sort)
  with ne have "?s \<noteq> []" by (cases ?u) auto
  then have "hd ?s \<in> set ?s" by (rule hd_in_set)
  also have "set ?s = set ?u" by (rule set_sort)
  finally have "hd ?s \<in> set ds \<and> fst (hd ?s) \<notin> set (map fst a)"
    unfolding set_filter by simp
  with v show "v \<in> set (map fst ds)" and "v \<notin> set (map fst a)" by simp_all
qed

lemma select_unassigned_variable_None:
  assumes "select_unassigned_variable cw ds a = None"
  shows "set (map fst ds) \<subseteq> set (map fst a)"
proof -
  from assms have "filter (\<lambda>p. fst p \<notin> set (map fst a)) ds = []"
    by (auto simp: select_unassigned_variable_def Let_def split: if_splits)
  then show ?thesis by (auto simp: filter_empty_conv)
qed

subsection \<open>The search\<close>

definition keys_ok :: "assignment \<Rightarrow> domains \<Rightarrow> bool" where
  "keys_ok a ds = (distinct (map fst a) \<and> set (map fst a) \<subseteq> set (map fst ds))"

definition search_post ::
  "crossword \<Rightarrow> domains \<Rightarrow> assignment option \<times> assignment \<times> domains \<Rightarrow> bool" where
  "search_post cw ds out =
     (case out of (res, a', ds') \<Rightarrow>
        map fst ds' = map fst ds \<and> keys_ok a' ds' \<and>
        (case res of
           None \<Rightarrow> True
         | Some r \<Rightarrow> r = a' \<and> consistent cw r = Inr True \<and>
             set (map fst r) = set (map fst ds)))"

lemma complete_keys:
  assumes "assignment_complete ds a" and "keys_ok a ds"
  shows "set (map fst a) = set (map fst ds)"
proof -
  from assms have "distinct (map fst a)" and "length (map fst a) = length ds"
    by (simp_all add: assignment_complete_def keys_ok_def)
  then have "card (set (map fst a)) = length ds"
    using distinct_card [of "map fst a"] by simp
  moreover have "card (set (map fst ds)) \<le> length ds"
    using card_length [of "map fst ds"] by simp
  ultimately have "card (set (map fst ds)) \<le> card (set (map fst a))" by simp
  with assms(2) show ?thesis
    by (intro card_seteq) (auto simp: keys_ok_def)
qed

lemma keys_ok_update:
  "keys_ok a ds \<Longrightarrow> v \<in> set (map fst ds) \<Longrightarrow> keys_ok (AList.update v w a) ds"
  by (auto simp: keys_ok_def distinct_update dom_update)

lemma keys_ok_delete: "keys_ok a ds \<Longrightarrow> keys_ok (AList.delete v a) ds"
  using dom_delete_subset [of v a] by (auto simp: keys_ok_def distinct_delete)


lemma keys_ok_store:
  "keys_ok a ds \<Longrightarrow> map fst ds' = map fst ds \<Longrightarrow> keys_ok a ds'"
  unfolding keys_ok_def by simp

lemma search_post_store:
  assumes "search_post cw ds' out" and "map fst ds' = map fst ds"
  shows "search_post cw ds out"
proof -
  from assms(2) have "set (map fst ds') = set (map fst ds)" by (rule arg_cong)
  with assms show ?thesis unfolding search_post_def by (simp only:)
qed

text \<open>One step of the search, case by case.\<close>

lemma backtrack_complete:
  "assignment_complete ds a \<Longrightarrow> backtrack (Suc n) cw a ds = Some (Inr (Some a, a, ds))"
  by simp

lemma backtrack_no_variable:
  "\<not> assignment_complete ds a \<Longrightarrow> select_unassigned_variable cw ds a = None
    \<Longrightarrow> backtrack (Suc n) cw a ds = Some (Inr (Some a, a, ds))"
  by simp

lemma backtrack_order_error:
  "\<not> assignment_complete ds a \<Longrightarrow> select_unassigned_variable cw ds a = Some v
    \<Longrightarrow> order_domain_values cw ds v a = Inl e \<Longrightarrow> backtrack (Suc n) cw a ds = Some (Inl e)"
  by simp

lemma backtrack_values:
  "\<not> assignment_complete ds a \<Longrightarrow> select_unassigned_variable cw ds a = Some v
    \<Longrightarrow> order_domain_values cw ds v a = Inr vals
    \<Longrightarrow> backtrack (Suc n) cw a ds = try_values n cw v vals a ds"
  by simp

lemma try_values_error:
  "consistent cw (AList.update v w a) = Inl e
    \<Longrightarrow> try_values n cw v (w # rest) a ds = Some (Inl e)"
  by (simp add: Let_def)

lemma try_values_inconsistent:
  "consistent cw (AList.update v w a) = Inr False
    \<Longrightarrow> try_values n cw v (w # rest) a ds =
        try_values n cw v rest (AList.delete v (AList.update v w a)) ds"
  by (simp add: Let_def)

lemma try_values_ac3_error:
  "consistent cw (AList.update v w a) = Inr True
    \<Longrightarrow> ac3 cw (Some (map (\<lambda>var. (var, v)) (neighbors cw v))) ds = Inl e
    \<Longrightarrow> try_values n cw v (w # rest) a ds = Some (Inl e)"
  by (simp add: Let_def)

lemma try_values_no_inference:
  "consistent cw (AList.update v w a) = Inr True
    \<Longrightarrow> ac3 cw (Some (map (\<lambda>var. (var, v)) (neighbors cw v))) ds = Inr (False, ds1)
    \<Longrightarrow> try_values n cw v (w # rest) a ds = try_values n cw v rest (AList.update v w a) ds1"
  by (simp add: Let_def)

lemma try_values_recurse:
  "consistent cw (AList.update v w a) = Inr True
    \<Longrightarrow> ac3 cw (Some (map (\<lambda>var. (var, v)) (neighbors cw v))) ds = Inr (True, ds1)
    \<Longrightarrow> try_values n cw v (w # rest) a ds =
        (case backtrack n cw (AList.update v w a) ds1 of
           None \<Rightarrow> None
         | Some (Inl e) \<Rightarrow> Some (Inl e)
         | Some (Inr (result, a2, ds2)) \<Rightarrow>
             if result \<noteq> None then Some (Inr (result, a2, ds2))
             else try_values n cw v rest a2 ds2)"
  by (simp add: Let_def)

lemma try_values_Nil: "try_values n cw v [] a ds = Some (Inr (None, a, ds))"
  by simp

lemma backtrack_0: "backtrack 0 cw a ds = None"
  by simp

declare backtrack.simps [simp del] try_values.simps [simp del]

lemma try_values_sound:
  assumes bt: "\<And>a ds out. backtrack n cw a ds = Some (Inr out) \<Longrightarrow> keys_ok a ds
      \<Longrightarrow> consistent cw a = Inr True \<Longrightarrow> search_post cw ds out"
  shows "try_values n cw v vals a ds = Some (Inr out) \<Longrightarrow> keys_ok a ds
      \<Longrightarrow> v \<in> set (map fst ds) \<Longrightarrow> search_post cw ds out"
proof (induction vals arbitrary: a ds)
  case Nil
  then have "out = (None, a, ds)" by (simp add: try_values_Nil)
  with Nil.prems(2) show ?case by (simp add: search_post_def)
next
  case (Cons w rest)
  let ?a1 = "AList.update v w a"
  let ?arcs = "Some (map (\<lambda>var. (var, v)) (neighbors cw v))"
  have k1: "keys_ok ?a1 ds" using Cons.prems(2,3) by (rule keys_ok_update)
  show ?case
  proof (cases "consistent cw ?a1")
    case (Inl e)
    with Cons.prems(1) show ?thesis by (simp add: try_values_error)
  next
    case (Inr ok)
    show ?thesis
    proof (cases ok)
      case False
      with Inr Cons.prems(1)
      have "try_values n cw v rest (AList.delete v ?a1) ds = Some (Inr out)"
        by (simp add: try_values_inconsistent)
      moreover have "keys_ok (AList.delete v ?a1) ds" using k1 by (rule keys_ok_delete)
      ultimately show ?thesis using Cons.prems(3) by (rule Cons.IH)
    next
      case True
      with Inr have c: "consistent cw ?a1 = Inr True" by simp
      show ?thesis
      proof (cases "ac3 cw ?arcs ds")
        case (Inl e)
        with c Cons.prems(1) show ?thesis by (simp add: try_values_ac3_error)
      next
        case ac: (Inr p)
        obtain inf ds1 where p: "p = (inf, ds1)" by (cases p)
        from ac p have kd: "map fst ds1 = map fst ds" by (auto dest: ac3_keys)
        have k2: "keys_ok ?a1 ds1" using k1 kd by (rule keys_ok_store)
        have v1: "v \<in> set (map fst ds1)" using Cons.prems(3) kd by simp
        show ?thesis
        proof (cases inf)
          case False
          with c ac p Cons.prems(1)
          have "try_values n cw v rest ?a1 ds1 = Some (Inr out)"
            by (simp add: try_values_no_inference)
          then have "search_post cw ds1 out" using k2 v1 by (rule Cons.IH)
          then show ?thesis using kd by (rule search_post_store)
        next
          case inf: True
          with ac p have ac': "ac3 cw ?arcs ds = Inr (True, ds1)" by simp
          note step = try_values_recurse [OF c ac', of n rest]
          show ?thesis
          proof (cases "backtrack n cw ?a1 ds1")
            case None
            with step Cons.prems(1) show ?thesis by simp
          next
            case (Some r)
            show ?thesis
            proof (cases r)
              case (Inl e)
              with Some step Cons.prems(1) show ?thesis by simp
            next
              case (Inr q)
              obtain res a2 ds2 where q: "q = (res, a2, ds2)" by (cases q)
              from Some Inr q have b: "backtrack n cw ?a1 ds1 = Some (Inr (res, a2, ds2))"
                by simp
              then have post: "search_post cw ds1 (res, a2, ds2)" using k2 c by (rule bt)
              show ?thesis
              proof (cases res)
                case (Some r')
                with b step Cons.prems(1) have "out = (res, a2, ds2)" by simp
                with post have "search_post cw ds1 out" by simp
                then show ?thesis using kd by (rule search_post_store)
              next
                case None
                with b step Cons.prems(1)
                have t: "try_values n cw v rest a2 ds2 = Some (Inr out)" by simp
                from post have kd2: "map fst ds2 = map fst ds1" and k3: "keys_ok a2 ds2"
                  by (simp_all add: search_post_def)
                have v2: "v \<in> set (map fst ds2)" using v1 kd2 by simp
                have "search_post cw ds2 out" using t k3 v2 by (rule Cons.IH)
                then have "search_post cw ds1 out" using kd2 by (rule search_post_store)
                then show ?thesis using kd by (rule search_post_store)
              qed
            qed
          qed
        qed
      qed
    qed
  qed
qed

lemma backtrack_sound:
  "backtrack n cw a ds = Some (Inr out) \<Longrightarrow> keys_ok a ds
    \<Longrightarrow> consistent cw a = Inr True \<Longrightarrow> search_post cw ds out"
proof (induction n arbitrary: a ds out)
  case 0
  then show ?case by (simp add: backtrack_0)
next
  case (Suc n)
  show ?case
  proof (cases "assignment_complete ds a")
    case True
    then have "set (map fst a) = set (map fst ds)"
      using Suc.prems(2) by (rule complete_keys)
    moreover from True Suc.prems(1) have "out = (Some a, a, ds)"
      by (simp add: backtrack_complete)
    ultimately show ?thesis
      using Suc.prems(2,3) unfolding search_post_def by simp
  next
    case False
    show ?thesis
    proof (cases "select_unassigned_variable cw ds a")
      case None
      then have "set (map fst ds) \<subseteq> set (map fst a)"
        by (rule select_unassigned_variable_None)
      then have "set (map fst a) = set (map fst ds)"
        using Suc.prems(2) unfolding keys_ok_def by blast
      moreover from False None Suc.prems(1) have "out = (Some a, a, ds)"
        by (simp add: backtrack_no_variable)
      ultimately show ?thesis
        using Suc.prems(2,3) unfolding search_post_def by simp
    next
      case (Some v)
      then have v: "v \<in> set (map fst ds)" by (rule select_unassigned_variable_Some)
      show ?thesis
      proof (cases "order_domain_values cw ds v a")
        case (Inl e)
        with False Some Suc.prems(1) show ?thesis by (simp add: backtrack_order_error)
      next
        case (Inr vals)
        with False Some Suc.prems(1)
        have t: "try_values n cw v vals a ds = Some (Inr out)"
          by (simp add: backtrack_values)
        show ?thesis
        proof (rule try_values_sound [where n = n and v = v and vals = vals and a = a])
          show "search_post cw ds' out'"
            if "backtrack n cw a' ds' = Some (Inr out')" "keys_ok a' ds'"
              "consistent cw a' = Inr True" for a' ds' out'
            using that by (rule Suc.IH)
          show "try_values n cw v vals a ds = Some (Inr out)" by (rule t)
          show "keys_ok a ds" by (rule Suc.prems(2))
          show "v \<in> set (map fst ds)" by (rule v)
        qed
      qed
    qed
  qed
qed

lemma spec_consistent_agree:
  assumes "spec_consistent cw a" and "map_of a x = Some wx"
    and "y \<in> set (neighbors cw x)" and "map_of a y = Some wy"
  shows "\<exists>ox oy. overlaps cw (x, y) = Some (ox, oy) \<and> ox < length wx \<and> oy < length wy \<and>
    wx ! ox = wy ! oy"
proof -
  from assms(2) have "(x, wx) \<in> set a" by (rule map_of_SomeD)
  with assms(1) have "list_all (agree cw a x wx) (neighbors cw x)"
    by (auto simp: spec_consistent_def list_all_iff)
  with assms(3) have "agree cw a x wx y" by (simp add: list_all_iff)
  with assms(4) show ?thesis
    by (auto simp: agree_def split: option.splits)
qed

lemma solve_backtrack:
  assumes "solve fuel cw = Some (Inr res)"
  shows "\<exists>ds a' ds'. map fst ds = variables cw \<and>
    backtrack fuel cw [] ds = Some (Inr (res, a', ds'))"
proof -
  from assms obtain ds1 where 1: "enforce_node_consistency (creator_init cw) = Inr ds1"
    by (cases "enforce_node_consistency (creator_init cw)") (auto simp: solve_def)
  from assms 1 obtain inf ds2 where 2: "ac3 cw None ds1 = Inr (inf, ds2)"
    by (cases "ac3 cw None ds1") (auto simp: solve_def)
  from assms 1 2 obtain a' ds3 where 3: "backtrack fuel cw [] ds2 = Some (Inr (res, a', ds3))"
    by (cases "backtrack fuel cw [] ds2") (auto simp: solve_def split: sum.splits)
  have "map fst ds2 = map fst ds1" using 2 by (rule ac3_keys)
  also have "\<dots> = map fst (creator_init cw)" using 1 by (rule enforce_node_consistency_keys)
  also have "\<dots> = variables cw" by (rule creator_init_keys)
  finally show ?thesis using 3 by blast
qed

subsection \<open>Well-formed models and arc consistency\<close>

lemma well_formedD:
  assumes "well_formed cw" and "x \<in> set (variables cw)" and "y \<in> set (neighbors cw x)"
  shows "y \<noteq> x" and "y \<in> set (variables cw)" and "x \<in> set (neighbors cw y)"
    and "\<exists>a b. overlaps cw (x, y) = Some (a, b) \<and> overlaps cw (y, x) = Some (b, a) \<and>
           int a < var_length x \<and> int b < var_length y"
proof -
  from assms have *: "y \<noteq> x \<and> y \<in> set (variables cw) \<and> x \<in> set (neighbors cw y) \<and>
      (case overlaps cw (x, y) of
         None \<Rightarrow> False
       | Some (a, b) \<Rightarrow>
           overlaps cw (y, x) = Some (b, a) \<and> int a < var_length x \<and> int b < var_length y)"
    unfolding well_formed_def list_all_iff by blast
  then show "y \<noteq> x" and "y \<in> set (variables cw)" and "x \<in> set (neighbors cw y)"
    by simp_all
  from * show "\<exists>a b. overlaps cw (x, y) = Some (a, b) \<and> overlaps cw (y, x) = Some (b, a) \<and>
           int a < var_length x \<and> int b < var_length y"
    by (cases "overlaps cw (x, y)") auto
qed

lemma supports_swap: "supports (a, b) wx wy = supports (b, a) wy wx"
  by (auto simp: supports_def)

subsection \<open>What a revision that returns has done\<close>

lemma find_match_Inr:
  "find_match ov node dy found = Inr b \<Longrightarrow> b = (found \<or> list_ex (supports ov node) dy)"
proof (induction dy arbitrary: found)
  case Nil
  then show ?case by simp
next
  case (Cons n2 dy)
  from Cons.prems have 1: "fst ov < length node" and 2: "snd ov < length n2"
    by (auto simp: index_def split: if_splits sum.splits)
  with Cons.prems
  have "find_match ov node dy (if node ! fst ov = n2 ! snd ov then True else found) = Inr b"
    by (simp add: index_def)
  from Cons.IH [OF this] 1 2 show ?case
    by (auto simp: supports_def)
qed

lemma map_entry_ident: "AList.map_entry x (\<lambda>d. d) ds = ds"
  by (induction ds) auto

lemma map_entry_cong_on:
  "map_of ds x = Some d \<Longrightarrow> f d = g d \<Longrightarrow> AList.map_entry x f ds = AList.map_entry x g ds"
  by (induction ds) (auto split: if_splits)

lemma map_entry_missing: "map_of ds x = None \<Longrightarrow> AList.map_entry x f ds = ds"
  by (induction ds) (auto split: if_splits)

lemma revise_loop_Inr:
  "revise_loop x ov dx dy ds rv = Inr (rv', ds') \<Longrightarrow>
     rv' = (rv \<or> (\<exists>w\<in>set dx. \<not> list_ex (supports ov w) dy)) \<and>
     ds' = AList.map_entry x (filter (\<lambda>w. w \<in> set dx \<longrightarrow> list_ex (supports ov w) dy)) ds"
proof (induction dx arbitrary: ds rv)
  case Nil
  then show ?case by (simp add: map_entry_ident)
next
  case (Cons node dx)
  let ?sup = "\<lambda>w. list_ex (supports ov w) dy"
  from Cons.prems obtain found where fm: "find_match ov node dy False = Inr found"
    by (cases "find_match ov node dy False") auto
  then have f: "found = ?sup node" by (auto dest: find_match_Inr)
  show ?case
  proof (cases found)
    case True
    with fm Cons.prems have "revise_loop x ov dx dy ds rv = Inr (rv', ds')" by simp
    from Cons.IH [OF this] have r: "rv' = (rv \<or> (\<exists>w\<in>set dx. \<not> ?sup w))"
      and d: "ds' = AList.map_entry x (filter (\<lambda>w. w \<in> set dx \<longrightarrow> ?sup w)) ds"
      by simp_all
    have "(\<lambda>w. w \<in> set (node # dx) \<longrightarrow> ?sup w) = (\<lambda>w. w \<in> set dx \<longrightarrow> ?sup w)"
      using True f by auto
    with r d True f show ?thesis by auto
  next
    case False
    with fm Cons.prems
    have "revise_loop x ov dx dy (AList.map_entry x (removeAll node) ds) True = Inr (rv', ds')"
      by simp
    from Cons.IH [OF this] have r: "rv'"
      and d: "ds' = AList.map_entry x (filter (\<lambda>w. w \<in> set dx \<longrightarrow> ?sup w))
                 (AList.map_entry x (removeAll node) ds)"
      by simp_all
    have "filter (\<lambda>w. w \<in> set dx \<longrightarrow> ?sup w) \<circ> removeAll node =
          filter (\<lambda>w. w \<in> set (node # dx) \<longrightarrow> ?sup w)"
      unfolding filter_removeAll_comp using False f by (intro ext filter_cong) auto
    with r d False f show ?thesis by (auto simp: map_entry_twice)
  qed
qed

lemma revise_no_overlap:
  "overlaps cw (x, y) = None \<Longrightarrow> revise cw x y ds = Inr (False, ds)"
  by (simp add: revise_def)

lemma revise_Inr:
  assumes "revise cw x y ds = Inr (changed, ds')" and "overlaps cw (x, y) = Some ov"
  shows "\<exists>dx dy. map_of ds x = Some dx \<and> map_of ds y = Some dy \<and>
    changed = (\<exists>w\<in>set dx. \<not> list_ex (supports ov w) dy) \<and>
    ds' = AList.map_entry x (filter (\<lambda>w. list_ex (supports ov w) dy)) ds"
proof -
  from assms obtain dx where dx: "map_of ds x = Some dx"
    by (cases "map_of ds x") (auto simp: revise_def getitem_def)
  from assms dx obtain dy where dy: "map_of ds y = Some dy"
    by (cases "map_of ds y") (auto simp: revise_def getitem_def)
  from assms dx dy have "revise_loop x ov dx dy ds False = Inr (changed, ds')"
    by (simp add: revise_def getitem_def)
  from revise_loop_Inr [OF this]
  have c: "changed = (\<exists>w\<in>set dx. \<not> list_ex (supports ov w) dy)"
    and d: "ds' = AList.map_entry x
        (filter (\<lambda>w. w \<in> set dx \<longrightarrow> list_ex (supports ov w) dy)) ds"
    by simp_all
  have "filter (\<lambda>w. w \<in> set dx \<longrightarrow> list_ex (supports ov w) dy) dx =
      filter (\<lambda>w. list_ex (supports ov w) dy) dx"
    by (intro filter_cong) auto
  with dx have "AList.map_entry x (filter (\<lambda>w. w \<in> set dx \<longrightarrow> list_ex (supports ov w) dy)) ds =
      AList.map_entry x (filter (\<lambda>w. list_ex (supports ov w) dy)) ds"
    by (rule map_entry_cong_on)
  with dx dy c d show ?thesis by simp
qed

lemma revise_unchanged:
  assumes "revise cw x y ds = Inr (False, ds')"
  shows "ds' = ds"
proof (cases "overlaps cw (x, y)")
  case None
  with assms show ?thesis by (simp add: revise_def)
next
  case (Some ov)
  from revise_Inr [OF assms Some] obtain dx dy where dx: "map_of ds x = Some dx"
    and c: "\<not> (\<exists>w\<in>set dx. \<not> list_ex (supports ov w) dy)"
    and d: "ds' = AList.map_entry x (filter (\<lambda>w. list_ex (supports ov w) dy)) ds"
    by blast
  from c have "filter (\<lambda>w. list_ex (supports ov w) dy) dx = (\<lambda>d. d) dx" by simp
  with dx have "AList.map_entry x (filter (\<lambda>w. list_ex (supports ov w) dy)) ds =
      AList.map_entry x (\<lambda>d. d) ds" by (rule map_entry_cong_on)
  with d show ?thesis by (simp add: map_entry_ident)
qed

subsection \<open>The worklist invariant\<close>

lemma arc_consistent_same:
  "map_of ds1 x = map_of ds x \<Longrightarrow> map_of ds1 y = map_of ds y
    \<Longrightarrow> arc_consistent cw ds1 x y = arc_consistent cw ds x y"
  by (auto simp: arc_consistent_def split: option.splits)

lemma arc_consistent_shrink:
  assumes "arc_consistent cw ds x y" and "map_of ds x = Some d"
    and "map_of ds1 x = Some (filter P d)" and "map_of ds1 y = map_of ds y"
  shows "arc_consistent cw ds1 x y"
  using assms by (auto simp: arc_consistent_def list_all_iff split: option.splits)

lemma arc_consistent_revised:
  assumes "overlaps cw (x, y) = Some ov"
    and "map_of ds1 x = Some (filter (\<lambda>w. list_ex (supports ov w) dy) dx)"
    and "map_of ds1 y = Some dy"
  shows "arc_consistent cw ds1 x y"
  using assms by (simp add: arc_consistent_def list_all_iff)

lemma arc_consistent_reverse:
  assumes "arc_consistent cw ds y x"
    and "overlaps cw (x, y) = Some (a, b)" and "overlaps cw (y, x) = Some (b, a)"
    and "map_of ds x = Some dx" and "map_of ds y = Some dy"
    and "map_of ds1 x = Some (filter (\<lambda>w. list_ex (supports (a, b) w) dy) dx)"
    and "map_of ds1 y = Some dy"
  shows "arc_consistent cw ds1 y x"
proof -
  have "list_ex (supports (b, a) wy) (filter (\<lambda>w. list_ex (supports (a, b) w) dy) dx)"
    if wy: "wy \<in> set dy" for wy
  proof -
    from assms(1,3,4,5) wy obtain wx where wx: "wx \<in> set dx" "supports (b, a) wy wx"
      by (auto simp: arc_consistent_def list_all_iff list_ex_iff)
    then have "supports (a, b) wx wy" by (simp add: supports_swap)
    with wy have "list_ex (supports (a, b) wx) dy" by (auto simp: list_ex_iff)
    with wx show ?thesis by (auto simp: list_ex_iff)
  qed
  with assms(3,6,7) show ?thesis
    by (simp add: arc_consistent_def list_all_iff)
qed

lemma revise_keeps_invariant:
  assumes wf: "well_formed cw" and keys: "set (map fst ds) \<subseteq> set (variables cw)"
    and rev: "revise cw x y ds = Inr (changed, ds1)"
    and inv: "pending_or_consistent cw ((x, y) # rest) ds"
  shows "pending_or_consistent cw
    (rest @ (if changed
             then map (\<lambda>n. (n, x)) (filter (\<lambda>n. n \<noteq> y) (neighbors cw x)) else [])) ds1"
proof (cases "overlaps cw (x, y)")
  case None
  with rev have "ds1 = ds" "\<not> changed" by (simp_all add: revise_def)
  moreover have "arc_consistent cw ds x y" using None by (simp add: arc_consistent_def)
  ultimately show ?thesis
    using inv by (auto simp: pending_or_consistent_def)
next
  case (Some ov)
  obtain a b where ov: "ov = (a, b)" by (cases ov)
  let ?sup = "\<lambda>w dy. list_ex (supports ov w) dy"
  from revise_Inr [OF rev Some] obtain dx dy where dx: "map_of ds x = Some dx"
    and dy: "map_of ds y = Some dy"
    and c: "changed = (\<exists>w\<in>set dx. \<not> list_ex (supports ov w) dy)"
    and d: "ds1 = AList.map_entry x (filter (\<lambda>w. list_ex (supports ov w) dy)) ds"
    by blast
  have k1: "map fst ds1 = map fst ds" using rev by (rule revise_keys)
  have x1: "map_of ds1 x = Some (filter (\<lambda>w. list_ex (supports ov w) dy) dx)"
    using dx d by (simp add: map_of_map_entry_same)
  have o1: "map_of ds1 z = map_of ds z" if "z \<noteq> x" for z
    using that d by (simp add: map_of_map_entry_other)
  have xv: "x \<in> set (variables cw)"
  proof -
    from dx have "(x, dx) \<in> set ds" by (rule map_of_SomeD)
    then have "fst (x, dx) \<in> fst ` set ds" by (rule imageI)
    with keys show ?thesis by auto
  qed
  show ?thesis
    unfolding pending_or_consistent_def
  proof (intro ballI)
    fix x' y'
    assume "x' \<in> set (map fst ds1)" and nb: "y' \<in> set (neighbors cw x')"
    then have x'k: "x' \<in> set (map fst ds)" using k1 by simp
    then have x'v: "x' \<in> set (variables cw)" using keys by blast
    from wf x'v nb have ne: "y' \<noteq> x'" by (rule well_formedD)
    let ?new = "rest @ (if changed
             then map (\<lambda>n. (n, x)) (filter (\<lambda>n. n \<noteq> y) (neighbors cw x)) else [])"
    from inv x'k nb have "(x', y') = (x, y) \<or> (x', y') \<in> set rest \<or> arc_consistent cw ds x' y'"
      by (auto simp: pending_or_consistent_def)
    then consider (head) "x' = x" "y' = y" | (rest) "(x', y') \<in> set rest"
      | (ac) "arc_consistent cw ds x' y'" by auto
    then show "(x', y') \<in> set ?new \<or> arc_consistent cw ds1 x' y'"
    proof cases
      case head
      with ne have "map_of ds1 y = Some dy" using o1 [of y] dy by simp
      with Some x1 have "arc_consistent cw ds1 x y" by (rule arc_consistent_revised)
      with head show ?thesis by simp
    next
      case rest
      then show ?thesis by simp
    next
      case ac
      show ?thesis
      proof (cases changed)
        case False
        with rev have "ds1 = ds" by (auto dest: revise_unchanged)
        with ac show ?thesis by simp
      next
        case True
        show ?thesis
        proof (cases "y' = x")
          case y'x: True
          with ne have x'ne: "x' \<noteq> x" by simp
          from wf x'v nb y'x have sym: "x' \<in> set (neighbors cw x)"
            by (auto dest: well_formedD(3))
          show ?thesis
          proof (cases "x' = y")
            case False
            with sym y'x True show ?thesis by simp
          next
            case x'y: True
            from wf x'v nb obtain a' b' where
              "overlaps cw (x', y') = Some (a', b')" "overlaps cw (y', x') = Some (b', a')"
              by (auto dest: well_formedD(4))
            with x'y y'x Some ov have yx: "overlaps cw (y, x) = Some (b, a)" by simp
            have y1: "map_of ds1 y = Some dy" using o1 [of y] dy x'ne x'y by simp
            from ac x'y y'x have "arc_consistent cw ds y x" by simp
            then have "arc_consistent cw ds1 y x"
              using Some [unfolded ov] yx dx dy x1 [unfolded ov] y1
              by (rule arc_consistent_reverse)
            with x'y y'x show ?thesis by simp
          qed
        next
          case y'x: False
          show ?thesis
          proof (cases "x' = x")
            case True
            from ac True have "arc_consistent cw ds x y'" by simp
            then have "arc_consistent cw ds1 x y'"
              using dx x1 o1 [OF y'x] by (rule arc_consistent_shrink)
            with True show ?thesis by simp
          next
            case False
            with y'x have "arc_consistent cw ds1 x' y' = arc_consistent cw ds x' y'"
              by (intro arc_consistent_same o1)
            with ac show ?thesis by simp
          qed
        qed
      qed
    qed
  qed
qed

lemma ac3_loop_fixpoint:
  "ac3_loop cw arcs ds = Inr (True, ds') \<Longrightarrow> well_formed cw
    \<Longrightarrow> set (map fst ds) \<subseteq> set (variables cw)
    \<Longrightarrow> pending_or_consistent cw arcs ds \<Longrightarrow> pending_or_consistent cw [] ds'"
proof (induction cw arcs ds rule: ac3_loop.induct)
  case (1 cw ds)
  then show ?case by simp
next
  case (2 cw var1 var2 arcs ds)
  from "2.prems"(1) obtain revised ds1 where r: "revise cw var1 var2 ds = Inr (revised, ds1)"
    by (auto split: sum.splits)
  then have k: "map fst ds1 = map fst ds" by (rule revise_keys)
  with "2.prems"(3) have keys1: "set (map fst ds1) \<subseteq> set (variables cw)" by simp
  note step = revise_keeps_invariant [OF "2.prems"(2) "2.prems"(3) r "2.prems"(4)]
  show ?case
  proof (cases revised)
    case False
    with "2.prems"(1) r have run: "ac3_loop cw arcs ds1 = Inr (True, ds')" by simp
    from step False have "pending_or_consistent cw arcs ds1" by simp
    with "2.IH"(2) [OF r refl False run "2.prems"(2) keys1] show ?thesis .
  next
    case True
    with "2.prems"(1) r obtain d where d: "getitem ds1 var1 = Inr d"
      by (auto split: sum.splits)
    show ?thesis
    proof (cases "d = []")
      case True
      with "2.prems"(1) r d \<open>revised\<close> show ?thesis by simp
    next
      case False
      let ?arcs = "arcs @ map (\<lambda>neighbor. (neighbor, var1))
                         (filter (\<lambda>neighbor. neighbor \<noteq> var2) (neighbors cw var1))"
      from "2.prems"(1) r d \<open>revised\<close> False
      have run: "ac3_loop cw ?arcs ds1 = Inr (True, ds')" by simp
      from step \<open>revised\<close> have "pending_or_consistent cw ?arcs ds1" by simp
      with "2.IH"(1) [OF r refl \<open>revised\<close> d False run "2.prems"(2) keys1]
      show ?thesis .
    qed
  qed
qed

lemma revise_domains:
  assumes "revise cw x y ds = Inr (changed, ds1)" and "map_of ds v = Some d"
  shows "\<exists>d1. map_of ds1 v = Some d1 \<and> set d1 \<subseteq> set d \<and> (d1 = d \<or> v = x \<and> changed)"
proof (cases "overlaps cw (x, y)")
  case None
  with assms show ?thesis by (simp add: revise_def)
next
  case (Some ov)
  from revise_Inr [OF assms(1) Some] obtain dx dy where dx: "map_of ds x = Some dx"
    and d1: "ds1 = AList.map_entry x (filter (\<lambda>w. list_ex (supports ov w) dy)) ds"
    by blast
  show ?thesis
  proof (cases changed)
    case False
    with assms show ?thesis by (auto dest: revise_unchanged)
  next
    case True
    show ?thesis
    proof (cases "v = x")
      case False
      with d1 assms(2) show ?thesis by (simp add: map_of_map_entry_other)
    next
      case vx: True
      with dx assms(2) have "dx = d" by simp
      with vx dx d1 True show ?thesis by (simp add: map_of_map_entry_same)
    qed
  qed
qed

lemma ac3_loop_nonempty:
  "ac3_loop cw arcs ds = Inr (True, ds') \<Longrightarrow> map_of ds v = Some d \<Longrightarrow> d \<noteq> []
    \<Longrightarrow> \<exists>d'. map_of ds' v = Some d' \<and> d' \<noteq> [] \<and> set d' \<subseteq> set d"
proof (induction cw arcs ds arbitrary: d rule: ac3_loop.induct)
  case (1 cw ds)
  then show ?case by auto
next
  case (2 cw var1 var2 arcs ds)
  from "2.prems"(1) obtain revised ds1 where r: "revise cw var1 var2 ds = Inr (revised, ds1)"
    by (auto split: sum.splits)
  from revise_domains [OF r "2.prems"(2)] obtain d1 where d1: "map_of ds1 v = Some d1"
    "set d1 \<subseteq> set d" "d1 = d \<or> v = var1 \<and> revised" by blast
  show ?case
  proof (cases revised)
    case False
    with "2.prems"(1) r have run: "ac3_loop cw arcs ds1 = Inr (True, ds')" by simp
    from d1 False "2.prems"(3) have "d1 \<noteq> []" by simp
    from "2.IH"(2) [OF r refl False run d1(1) this] d1(2) show ?thesis by blast
  next
    case True
    with "2.prems"(1) r obtain dd where dd: "getitem ds1 var1 = Inr dd"
      by (auto split: sum.splits)
    show ?thesis
    proof (cases "dd = []")
      case True
      with "2.prems"(1) r dd \<open>revised\<close> show ?thesis by simp
    next
      case False
      let ?arcs = "arcs @ map (\<lambda>neighbor. (neighbor, var1))
                         (filter (\<lambda>neighbor. neighbor \<noteq> var2) (neighbors cw var1))"
      from "2.prems"(1) r dd \<open>revised\<close> False
      have run: "ac3_loop cw ?arcs ds1 = Inr (True, ds')" by simp
      have "d1 \<noteq> []"
      proof (cases "v = var1")
        case True
        with dd d1(1) have "dd = d1" by (simp add: getitem_def)
        with False show ?thesis by simp
      next
        case False
        with d1(3) "2.prems"(3) show ?thesis by simp
      qed
      from "2.IH"(1) [OF r refl \<open>revised\<close> dd False run d1(1) this] d1(2)
      show ?thesis by blast
    qed
  qed
qed

lemma pending_all_arcs: "pending_or_consistent cw (all_arcs cw ds) ds"
  by (auto simp: pending_or_consistent_def all_arcs_def)

subsection \<open>Node consistency of the store\<close>

lemma map_of_Some_key: "map_of ds x = Some d \<Longrightarrow> x \<in> set (map fst ds)"
proof -
  assume "map_of ds x = Some d"
  then have "(x, d) \<in> set ds" by (rule map_of_SomeD)
  then have "fst (x, d) \<in> fst ` set ds" by (rule imageI)
  then show ?thesis by simp
qed

lemma key_map_of_Some: "x \<in> set (map fst ds) \<Longrightarrow> \<exists>d. map_of ds x = Some d"
  by (cases "map_of ds x") (auto simp: map_of_eq_None_iff)

lemma node_consistentD:
  "node_consistent ds \<Longrightarrow> map_of ds x = Some d \<Longrightarrow> w \<in> set d
    \<Longrightarrow> int (length w) = var_length x"
proof -
  assume nc: "node_consistent ds" and m: "map_of ds x = Some d" and w: "w \<in> set d"
  from m have "x \<in> set (map fst ds)" by (rule map_of_Some_key)
  with nc have "case map_of ds x of None \<Rightarrow> True
      | Some d \<Rightarrow> list_all (\<lambda>w. int (length w) = var_length x) d"
    unfolding node_consistent_def list_all_iff by blast
  with m w show ?thesis by (simp add: list_all_iff)
qed

lemma node_consistentI:
  assumes "\<And>x d w. map_of ds x = Some d \<Longrightarrow> w \<in> set d \<Longrightarrow> int (length w) = var_length x"
  shows "node_consistent ds"
  unfolding node_consistent_def list_all_iff
  using assms by (auto split: option.splits)

text \<open>One store shrinks to another: the same slots, each domain a part of what it was.\<close>

definition shrinks :: "domains \<Rightarrow> domains \<Rightarrow> bool" where
  "shrinks ds ds' =
     (map fst ds' = map fst ds \<and>
      (\<forall>x d. map_of ds x = Some d \<longrightarrow> (\<exists>d'. map_of ds' x = Some d' \<and> set d' \<subseteq> set d)))"

lemma shrinks_refl: "shrinks ds ds"
  by (simp add: shrinks_def)

lemma shrinks_trans: "shrinks ds ds1 \<Longrightarrow> shrinks ds1 ds2 \<Longrightarrow> shrinks ds ds2"
proof -
  assume a: "shrinks ds ds1" and b: "shrinks ds1 ds2"
  have "\<exists>d2. map_of ds2 x = Some d2 \<and> set d2 \<subseteq> set d" if "map_of ds x = Some d" for x d
  proof -
    from a that obtain d1 where d1: "map_of ds1 x = Some d1" "set d1 \<subseteq> set d"
      unfolding shrinks_def by blast
    from b d1(1) obtain d2 where "map_of ds2 x = Some d2" "set d2 \<subseteq> set d1"
      unfolding shrinks_def by blast
    with d1(2) show ?thesis by blast
  qed
  moreover from a b have "map fst ds2 = map fst ds" by (simp add: shrinks_def)
  ultimately show ?thesis unfolding shrinks_def by blast
qed

lemma shrinks_keys: "shrinks ds ds' \<Longrightarrow> map fst ds' = map fst ds"
  by (simp add: shrinks_def)

lemma shrinks_back:
  assumes "shrinks ds ds'" and "map_of ds' x = Some d'"
  shows "\<exists>d. map_of ds x = Some d \<and> set d' \<subseteq> set d"
proof -
  from assms(2) have "x \<in> set (map fst ds')" by (rule map_of_Some_key)
  with assms(1) have "x \<in> set (map fst ds)" by (simp add: shrinks_def)
  then have "\<exists>d. map_of ds x = Some d" by (rule key_map_of_Some)
  then obtain d where d: "map_of ds x = Some d" ..
  with assms(1) obtain d2 where "map_of ds' x = Some d2" "set d2 \<subseteq> set d"
    unfolding shrinks_def by blast
  with assms(2) d show ?thesis by auto
qed

lemma shrinks_node_consistent:
  assumes "shrinks ds ds'" and "node_consistent ds"
  shows "node_consistent ds'"
proof (rule node_consistentI)
  fix x d' w
  assume "map_of ds' x = Some d'" and w: "w \<in> set d'"
  with assms(1) obtain d where "map_of ds x = Some d" "set d' \<subseteq> set d"
    by (auto dest: shrinks_back)
  with w assms(2) show "int (length w) = var_length x"
    by (auto dest: node_consistentD)
qed

subsection \<open>Node consistency is established\<close>

lemma remove_wrong_length_eq:
  "remove_wrong_length v dc ds =
     AList.map_entry v (filter (\<lambda>w. w \<in> set dc \<longrightarrow> int (length w) = var_length v)) ds"
proof (induction dc arbitrary: ds)
  case Nil
  then show ?case by (simp add: map_entry_ident)
next
  case (Cons node dc)
  let ?ok = "\<lambda>w. int (length w) = var_length v"
  show ?case
  proof (cases "?ok node")
    case True
    have "(\<lambda>w. w \<in> set (node # dc) \<longrightarrow> ?ok w) = (\<lambda>w. w \<in> set dc \<longrightarrow> ?ok w)"
      using True by auto
    then show ?thesis using True Cons.IH by simp
  next
    case False
    have "filter (\<lambda>w. w \<in> set dc \<longrightarrow> ?ok w) \<circ> removeAll node =
          filter (\<lambda>w. w \<in> set (node # dc) \<longrightarrow> ?ok w)"
      unfolding filter_removeAll_comp using False by (intro ext filter_cong) auto
    then show ?thesis using False Cons.IH by (simp add: map_entry_twice)
  qed
qed

lemma enforce_loop_result:
  "set vs \<subseteq> set (map fst ds) \<Longrightarrow>
   \<exists>ds'. enforce_loop vs ds = Inr ds' \<and> map fst ds' = map fst ds \<and>
     (\<forall>x. map_of ds' x =
        (if x \<in> set vs
         then map_option (filter (\<lambda>w. int (length w) = var_length x)) (map_of ds x)
         else map_of ds x))"
proof (induction vs arbitrary: ds)
  case Nil
  then show ?case by simp
next
  case (Cons v vs)
  let ?ok = "\<lambda>x w. int (length w) = var_length x"
  from Cons.prems have "v \<in> set (map fst ds)" by simp
  then have "\<exists>d. map_of ds v = Some d" by (rule key_map_of_Some)
  then obtain d where d: "map_of ds v = Some d" ..
  let ?ds1 = "remove_wrong_length v d ds"
  have eq: "?ds1 = AList.map_entry v (filter (\<lambda>w. w \<in> set d \<longrightarrow> ?ok v w)) ds"
    by (rule remove_wrong_length_eq)
  have k1: "map fst ?ds1 = map fst ds" by (rule remove_wrong_length_keys)
  have "filter (\<lambda>w. w \<in> set d \<longrightarrow> ?ok v w) d = filter (?ok v) d"
    by (intro filter_cong) auto
  with d eq have v1: "map_of ?ds1 v = Some (filter (?ok v) d)"
    by (simp add: map_of_map_entry_same)
  have o1: "map_of ?ds1 z = map_of ds z" if "z \<noteq> v" for z
    using that eq by (simp add: map_of_map_entry_other)
  from Cons.prems k1 have "set vs \<subseteq> set (map fst ?ds1)" by simp
  from Cons.IH [OF this] obtain ds' where r: "enforce_loop vs ?ds1 = Inr ds'"
    and k: "map fst ds' = map fst ?ds1"
    and m: "\<forall>x. map_of ds' x =
        (if x \<in> set vs then map_option (filter (?ok x)) (map_of ?ds1 x) else map_of ?ds1 x)"
    by blast
  have run: "enforce_loop (v # vs) ds = Inr ds'"
    using d r by (simp add: getitem_def)
  have "map_of ds' x =
        (if x \<in> set (v # vs) then map_option (filter (?ok x)) (map_of ds x) else map_of ds x)"
    for x
  proof (cases "x = v")
    case True
    with m v1 d show ?thesis by simp
  next
    case False
    with m o1 [OF False] show ?thesis by simp
  qed
  with run k k1 show ?case by simp
qed

lemma enforce_node_consistency_result:
  "\<exists>ds'. enforce_node_consistency ds = Inr ds' \<and> shrinks ds ds' \<and> node_consistent ds'"
proof -
  from enforce_loop_result [of "map fst ds" ds] obtain ds' where
    r: "enforce_loop (map fst ds) ds = Inr ds'" and k: "map fst ds' = map fst ds"
    and m: "\<forall>x. map_of ds' x =
        (if x \<in> set (map fst ds)
         then map_option (filter (\<lambda>w. int (length w) = var_length x)) (map_of ds x)
         else map_of ds x)"
    by auto
  have s: "shrinks ds ds'"
    unfolding shrinks_def using k m by (auto dest: map_of_Some_key)
  have "node_consistent ds'"
  proof (rule node_consistentI)
    fix x d' w
    assume x: "map_of ds' x = Some d'" and w: "w \<in> set d'"
    then have "x \<in> set (map fst ds)" using k by (auto dest: map_of_Some_key)
    with m x have "map_option (filter (\<lambda>w. int (length w) = var_length x)) (map_of ds x) = Some d'"
      by simp
    with w show "int (length w) = var_length x" by auto
  qed
  with r s show ?thesis by (auto simp: enforce_node_consistency_def)
qed

subsection \<open>Revision and propagation on a node-consistent store\<close>

definition arcs_ok :: "crossword \<Rightarrow> (variable \<times> variable) list \<Rightarrow> bool" where
  "arcs_ok cw arcs =
     list_all (\<lambda>arc. fst arc \<in> set (variables cw) \<and> snd arc \<in> set (neighbors cw (fst arc))) arcs"

lemma store_ok_shrinks: "store_ok cw ds \<Longrightarrow> shrinks ds ds' \<Longrightarrow> store_ok cw ds'"
  unfolding store_ok_def using shrinks_node_consistent [of ds ds'] by (simp add: shrinks_def)

lemma store_ok_lookup:
  "store_ok cw ds \<Longrightarrow> x \<in> set (variables cw) \<Longrightarrow> \<exists>d. map_of ds x = Some d"
  unfolding store_ok_def by (intro key_map_of_Some) simp

lemma store_ok_length:
  "store_ok cw ds \<Longrightarrow> map_of ds x = Some d \<Longrightarrow> w \<in> set d \<Longrightarrow> int (length w) = var_length x"
  unfolding store_ok_def by (blast dest: node_consistentD)

lemma revise_shrinks:
  assumes "revise cw x y ds = Inr (c, ds1)"
  shows "shrinks ds ds1"
proof -
  from assms have "map fst ds1 = map fst ds" by (rule revise_keys)
  moreover have "\<exists>d1. map_of ds1 v = Some d1 \<and> set d1 \<subseteq> set d" if "map_of ds v = Some d" for v d
    using revise_domains [OF assms that] by blast
  ultimately show ?thesis unfolding shrinks_def by blast
qed

lemma revise_total:
  assumes wf: "well_formed cw" and ok: "store_ok cw ds"
    and x: "x \<in> set (variables cw)" and y: "y \<in> set (neighbors cw x)"
  shows "\<exists>c ds1. revise cw x y ds = Inr (c, ds1)"
proof -
  from well_formedD(4) [OF wf x y] obtain a b where ov: "overlaps cw (x, y) = Some (a, b)"
    and a: "int a < var_length x" and b: "int b < var_length y" by blast
  from wf x y have yv: "y \<in> set (variables cw)" by (rule well_formedD(2))
  from store_ok_lookup [OF ok x] obtain dx where dx: "map_of ds x = Some dx" ..
  from store_ok_lookup [OF ok yv] obtain dy where dy: "map_of ds y = Some dy" ..
  have "fst (a, b) < length w" if "w \<in> set dx" for w
    using store_ok_length [OF ok dx that] a by simp
  then have "\<forall>w\<in>set dx. fst (a, b) < length w" ..
  moreover have "snd (a, b) < length w" if "w \<in> set dy" for w
    using store_ok_length [OF ok dy that] b by simp
  then have "\<forall>w\<in>set dy. snd (a, b) < length w" ..
  ultimately have "\<exists>c ds1. revise_loop x (a, b) dx dy ds False = Inr (c, ds1)"
    using revise_loop_ok [of dx "(a, b)" dy x ds False] by blast
  with ov dx dy show ?thesis by (simp add: revise_def getitem_def)
qed

lemma ac3_loop_total:
  "well_formed cw \<Longrightarrow> store_ok cw ds \<Longrightarrow> arcs_ok cw arcs
    \<Longrightarrow> \<exists>b ds'. ac3_loop cw arcs ds = Inr (b, ds') \<and> shrinks ds ds'"
proof (induction cw arcs ds rule: ac3_loop.induct)
  case (1 cw ds)
  show ?case by (intro exI [of _ True] exI [of _ ds]) (simp add: shrinks_refl)
next
  case (2 cw var1 var2 arcs ds)
  note wf = "2.prems"(1) and ok = "2.prems"(2)
  from "2.prems"(3) have v1: "var1 \<in> set (variables cw)"
    and v2: "var2 \<in> set (neighbors cw var1)" and rest: "arcs_ok cw arcs"
    by (simp_all add: arcs_ok_def)
  from revise_total [OF wf ok v1 v2] obtain revised ds1
    where r: "revise cw var1 var2 ds = Inr (revised, ds1)" by blast
  then have s1: "shrinks ds ds1" by (rule revise_shrinks)
  with ok have ok1: "store_ok cw ds1" by (rule store_ok_shrinks)
  show ?case
  proof (cases revised)
    case False
    from "2.IH"(2) [OF r refl False wf ok1 rest] obtain b ds'
      where "ac3_loop cw arcs ds1 = Inr (b, ds')" "shrinks ds1 ds'" by blast
    with r False s1 show ?thesis by (auto intro: shrinks_trans)
  next
    case True
    from store_ok_lookup [OF ok1 v1] obtain d where "map_of ds1 var1 = Some d" ..
    then have d: "getitem ds1 var1 = Inr d" by (simp add: getitem_def)
    show ?thesis
    proof (cases "d = []")
      case True
      with r d \<open>revised\<close> have "ac3_loop cw ((var1, var2) # arcs) ds = Inr (False, ds1)"
        by simp
      with s1 show ?thesis by blast
    next
      case False
      let ?arcs = "arcs @ map (\<lambda>neighbor. (neighbor, var1))
                         (filter (\<lambda>neighbor. neighbor \<noteq> var2) (neighbors cw var1))"
      have "arcs_ok cw ?arcs"
        using rest well_formedD(2,3) [OF wf v1]
        by (auto simp: arcs_ok_def list_all_iff)
      from "2.IH"(1) [OF r refl \<open>revised\<close> d False wf ok1 this] obtain b ds'
        where "ac3_loop cw ?arcs ds1 = Inr (b, ds')" "shrinks ds1 ds'" by blast
      with r d \<open>revised\<close> False s1 show ?thesis by (auto intro: shrinks_trans)
    qed
  qed
qed

lemma arcs_ok_all_arcs: "store_ok cw ds \<Longrightarrow> arcs_ok cw (all_arcs cw ds)"
  by (auto simp: arcs_ok_def all_arcs_def list_all_iff store_ok_def)

lemma arcs_ok_seed:
  "well_formed cw \<Longrightarrow> v \<in> set (variables cw)
    \<Longrightarrow> arcs_ok cw (map (\<lambda>var. (var, v)) (neighbors cw v))"
  using well_formedD(2,3) [of cw v] by (auto simp: arcs_ok_def list_all_iff)

lemma ac3_total:
  assumes "well_formed cw" and "store_ok cw ds" and "arcs = None \<or> arcs_ok cw (the arcs)"
  shows "\<exists>b ds'. ac3 cw arcs ds = Inr (b, ds') \<and> shrinks ds ds'"
proof -
  let ?arcs = "if arcs = None \<or> arcs = Some [] then all_arcs cw ds else the arcs"
  have eq: "ac3 cw arcs ds = ac3_loop cw ?arcs ds"
    by (simp add: ac3_def)
  have "arcs_ok cw ?arcs"
  proof (cases "arcs = None \<or> arcs = Some []")
    case True
    then have "?arcs = all_arcs cw ds" by (simp only: if_True)
    with assms(2) show ?thesis by (simp only: arcs_ok_all_arcs)
  next
    case False
    then have "?arcs = the arcs" by (simp only: if_False)
    moreover from False assms(3) have "arcs_ok cw (the arcs)" by auto
    ultimately show ?thesis by (simp only:)
  qed
  with assms(1,2) have "\<exists>b ds'. ac3_loop cw ?arcs ds = Inr (b, ds') \<and> shrinks ds ds'"
    by (rule ac3_loop_total)
  with eq show ?thesis by (simp only:)
qed

subsection \<open>The consistency check and the ordering on the states of the search\<close>

lemma assign_okD:
  "assign_ok cw a \<Longrightarrow> (x, w) \<in> set a
    \<Longrightarrow> x \<in> set (variables cw) \<and> int (length w) = var_length x"
  unfolding assign_ok_def list_all_iff by auto

lemma set_update_subset: "set (AList.update k v al) \<subseteq> insert (k, v) (set al)"
  by (induction al) auto

lemma assign_ok_update:
  "assign_ok cw a \<Longrightarrow> v \<in> set (variables cw) \<Longrightarrow> int (length w) = var_length v
    \<Longrightarrow> assign_ok cw (AList.update v w a)"
  unfolding assign_ok_def list_all_iff using set_update_subset [of v w a] by auto

lemma set_delete_subset: "set (AList.delete k al) \<subseteq> set al"
  by (induction al) auto

lemma assign_ok_delete: "assign_ok cw a \<Longrightarrow> assign_ok cw (AList.delete v a)"
  unfolding assign_ok_def list_all_iff using set_delete_subset [of v a] by auto

lemma assign_ok_Nil: "assign_ok cw []"
  by (simp add: assign_ok_def)

lemma check_neighbors_total:
  assumes wf: "well_formed cw" and v: "v \<in> set (variables cw)"
    and len: "int (length val) = var_length v" and a: "assign_ok cw a"
  shows "set ns \<subseteq> set (neighbors cw v) \<Longrightarrow> \<exists>b. check_neighbors cw a v val ns = Inr b"
proof (induction ns)
  case Nil
  show ?case by auto
next
  case (Cons n ns)
  then have n: "n \<in> set (neighbors cw v)" and rest: "set ns \<subseteq> set (neighbors cw v)"
    by simp_all
  from Cons.IH [OF rest] obtain b where IH: "check_neighbors cw a v val ns = Inr b" ..
  show ?case
  proof (cases "map_of a n")
    case None
    with IH show ?thesis by simp
  next
    case (Some nv)
    then have "(n, nv) \<in> set a" by (rule map_of_SomeD)
    with a have nl: "int (length nv) = var_length n" by (auto dest: assign_okD)
    from well_formedD(4) [OF wf v n] obtain p q where ov: "overlaps cw (v, n) = Some (p, q)"
      and p: "int p < var_length v" and q: "int q < var_length n" by blast
    from p len have p': "p < length val" by simp
    from q nl have q': "q < length nv" by simp
    show ?thesis
    proof (cases "nv ! q \<noteq> val ! p")
      case True
      with Some ov p' q' show ?thesis by (auto simp: index_def)
    next
      case False
      with Some ov p' q' IH show ?thesis by (auto simp: index_def)
    qed
  qed
qed

lemma consistent_loop_total:
  assumes wf: "well_formed cw" and a: "assign_ok cw a"
  shows "set items \<subseteq> set a \<Longrightarrow> \<exists>b. consistent_loop cw a items used = Inr b"
proof (induction items arbitrary: used)
  case Nil
  show ?case by auto
next
  case (Cons item items)
  obtain v val where item: "item = (v, val)" by (cases item)
  from Cons.prems item have mem: "(v, val) \<in> set a" and rest: "set items \<subseteq> set a"
    by simp_all
  from a mem have v: "v \<in> set (variables cw)" by (auto dest: assign_okD)
  show ?case
  proof (cases "val \<in> set used \<or> int (length val) \<noteq> var_length v")
    case True
    then show ?thesis unfolding item by auto
  next
    case False
    then have len: "int (length val) = var_length v" and fresh: "val \<notin> set used" by simp_all
    from check_neighbors_total [OF wf v len a subset_refl] obtain ok
      where cn: "check_neighbors cw a v val (neighbors cw v) = Inr ok" ..
    from Cons.IH [OF rest, of "val # used"] obtain b
      where IH: "consistent_loop cw a items (val # used) = Inr b" ..
    show ?thesis
    proof (cases ok)
      case True
      with cn IH len fresh show ?thesis unfolding item by auto
    next
      case False
      with cn len fresh show ?thesis unfolding item by auto
    qed
  qed
qed

lemma consistent_total:
  "well_formed cw \<Longrightarrow> assign_ok cw a \<Longrightarrow> \<exists>b. consistent cw a = Inr b"
  unfolding consistent_def by (rule consistent_loop_total) simp_all

lemma count_values_total:
  "p < length val \<Longrightarrow> \<forall>w\<in>set d. q < length w
    \<Longrightarrow> \<exists>c. count_values (Some (p, q)) a val d counter = Inr c"
  by (induction d arbitrary: counter) (simp_all add: index_def)

lemma count_neighbors_total:
  assumes wf: "well_formed cw" and ok: "store_ok cw ds" and v: "v \<in> set (variables cw)"
    and len: "int (length val) = var_length v"
  shows "set ns \<subseteq> set (neighbors cw v)
    \<Longrightarrow> \<exists>c. count_neighbors cw ds a v val ns counter = Inr c"
proof (induction ns arbitrary: counter)
  case Nil
  then show ?case by simp
next
  case (Cons n ns)
  then have n: "n \<in> set (neighbors cw v)" and rest: "set ns \<subseteq> set (neighbors cw v)"
    by simp_all
  from wf v n have nv: "n \<in> set (variables cw)" by (rule well_formedD(2))
  from store_ok_lookup [OF ok nv] obtain d where d: "map_of ds n = Some d" ..
  from well_formedD(4) [OF wf v n] obtain p q where ov: "overlaps cw (v, n) = Some (p, q)"
    and p: "int p < var_length v" and q: "int q < var_length n" by blast
  from p len have p': "p < length val" by simp
  have "q < length w" if "w \<in> set d" for w
    using store_ok_length [OF ok d that] q by simp
  then have "\<forall>w\<in>set d. q < length w" ..
  with p' obtain c where c: "count_values (Some (p, q)) a val d counter = Inr c"
    using count_values_total [of p val d q a counter] by blast
  from Cons.IH [OF rest, of c] obtain c' where "count_neighbors cw ds a v val ns c = Inr c'" ..
  with d ov c show ?case by (simp add: getitem_def)
qed

lemma count_all_total:
  assumes wf: "well_formed cw" and ok: "store_ok cw ds" and v: "v \<in> set (variables cw)"
  shows "\<forall>w\<in>set vals. int (length w) = var_length v
    \<Longrightarrow> \<exists>ov. count_all cw ds a v vals = Inr ov \<and> map fst ov = vals"
proof (induction vals)
  case Nil
  then show ?case by simp
next
  case (Cons val vals)
  then have len: "int (length val) = var_length v"
    and rest: "\<forall>w\<in>set vals. int (length w) = var_length v" by simp_all
  from count_neighbors_total [OF wf ok v len subset_refl, of a 0] obtain c
    where c: "count_neighbors cw ds a v val (neighbors cw v) 0 = Inr c" ..
  from Cons.IH [OF rest] obtain ov where "count_all cw ds a v vals = Inr ov" "map fst ov = vals"
    by blast
  with c show ?case by simp
qed

lemma order_domain_values_total:
  assumes wf: "well_formed cw" and ok: "store_ok cw ds" and v: "v \<in> set (variables cw)"
  shows "\<exists>vals d. order_domain_values cw ds v a = Inr vals \<and> map_of ds v = Some d \<and>
    set vals = set d"
proof -
  from store_ok_lookup [OF ok v] obtain d where d: "map_of ds v = Some d" ..
  have "\<forall>w\<in>set d. int (length w) = var_length v"
    using store_ok_length [OF ok d] by blast
  from count_all_total [OF wf ok v this, of a] obtain ov
    where ov: "count_all cw ds a v d = Inr ov" "map fst ov = d" by blast
  have "set (map fst (sort_key snd ov)) = set (map fst ov)" by simp
  with ov d show ?thesis by (simp add: order_domain_values_def getitem_def)
qed

subsection \<open>The search returns\<close>

lemma keys_update: "set (map fst (AList.update v w a)) = insert v (set (map fst a))"
  using dom_update [of v w a] by simp

lemma keys_delete: "set (map fst (AList.delete k al)) = set (map fst al) - {k}"
  by (induction al) auto

lemma keys_delete_update:
  "insert v (set (map fst (AList.delete v (AList.update v w a)))) = insert v (set (map fst a))"
  unfolding keys_delete keys_update by auto

lemma card_unassigned_mono:
  "K \<subseteq> K' \<Longrightarrow> card (set vs - K') \<le> card (set vs - K)"
  by (intro card_mono) auto

lemma try_values_total:
  assumes wf: "well_formed cw" and v: "v \<in> set (variables cw)"
    and bt: "\<And>a ds. store_ok cw ds \<Longrightarrow> assign_ok cw a
      \<Longrightarrow> card (set (variables cw) - set (map fst a)) < n
      \<Longrightarrow> \<exists>r a' ds'. backtrack n cw a ds = Some (Inr (r, a', ds')) \<and> store_ok cw ds' \<and>
            assign_ok cw a' \<and> set (map fst a) \<subseteq> set (map fst a')"
  shows "store_ok cw ds \<Longrightarrow> assign_ok cw a
    \<Longrightarrow> \<forall>w\<in>set vals. int (length w) = var_length v
    \<Longrightarrow> card (set (variables cw) - insert v (set (map fst a))) < n
    \<Longrightarrow> \<exists>r a' ds'. try_values n cw v vals a ds = Some (Inr (r, a', ds')) \<and> store_ok cw ds' \<and>
          assign_ok cw a' \<and> insert v (set (map fst a)) \<subseteq> insert v (set (map fst a'))"
proof (induction vals arbitrary: a ds)
  case Nil
  then show ?case by (auto simp: try_values_Nil)
next
  case (Cons w rest)
  note ok = Cons.prems(1) and aok = Cons.prems(2) and card = Cons.prems(4)
  from Cons.prems(3) have len: "int (length w) = var_length v"
    and lens: "\<forall>w\<in>set rest. int (length w) = var_length v" by simp_all
  let ?a1 = "AList.update v w a"
  from aok v len have aok1: "assign_ok cw ?a1" by (rule assign_ok_update)
  have k1: "set (map fst ?a1) = insert v (set (map fst a))" by (rule keys_update)
  from consistent_total [OF wf aok1] obtain b where c: "consistent cw ?a1 = Inr b" ..
  show ?case
  proof (cases b)
    case False
    with c have step: "try_values n cw v (w # rest) a ds =
        try_values n cw v rest (AList.delete v ?a1) ds"
      by (simp only: try_values_inconsistent)
    let ?a2 = "AList.delete v ?a1"
    from aok1 have aok2: "assign_ok cw ?a2" by (rule assign_ok_delete)
    have k2: "insert v (set (map fst ?a2)) = insert v (set (map fst a))"
      by (rule keys_delete_update)
    with card have "card (set (variables cw) - insert v (set (map fst ?a2))) < n"
      by (simp only:)
    from Cons.IH [OF ok aok2 lens this] obtain r a' ds'
      where "try_values n cw v rest ?a2 ds = Some (Inr (r, a', ds'))" "store_ok cw ds'"
        "assign_ok cw a'" "insert v (set (map fst ?a2)) \<subseteq> insert v (set (map fst a'))"
      by blast
    with step k2 show ?thesis by (simp only:) blast
  next
    case True
    with c have c: "consistent cw ?a1 = Inr True" by simp
    let ?seed = "Some (map (\<lambda>var. (var, v)) (neighbors cw v))"
    have "?seed = None \<or> arcs_ok cw (the ?seed)"
      using arcs_ok_seed [OF wf v] by simp
    from ac3_total [OF wf ok this] obtain ir ds1
      where inf: "ac3 cw ?seed ds = Inr (ir, ds1)" and s1: "shrinks ds ds1" by blast
    from ok s1 have ok1: "store_ok cw ds1" by (rule store_ok_shrinks)
    show ?thesis
    proof (cases ir)
      case False
      with c inf have step: "try_values n cw v (w # rest) a ds = try_values n cw v rest ?a1 ds1"
        by (simp only: try_values_no_inference)
      have k: "insert v (set (map fst ?a1)) = insert v (set (map fst a))"
        using k1 by simp
      with card have "card (set (variables cw) - insert v (set (map fst ?a1))) < n"
        by (simp only:)
      from Cons.IH [OF ok1 aok1 lens this] obtain r a' ds'
        where "try_values n cw v rest ?a1 ds1 = Some (Inr (r, a', ds'))" "store_ok cw ds'"
          "assign_ok cw a'" "insert v (set (map fst ?a1)) \<subseteq> insert v (set (map fst a'))"
        by blast
      with step k show ?thesis by (simp only:) blast
    next
      case True
      with c inf have step: "try_values n cw v (w # rest) a ds =
        (case backtrack n cw ?a1 ds1 of
           None \<Rightarrow> None
         | Some (Inl e) \<Rightarrow> Some (Inl e)
         | Some (Inr (result, a2, ds2)) \<Rightarrow>
             if result \<noteq> None then Some (Inr (result, a2, ds2))
             else try_values n cw v rest a2 ds2)"
        by (simp only: try_values_recurse)
      from card k1 have "card (set (variables cw) - set (map fst ?a1)) < n" by (simp only:)
      from bt [OF ok1 aok1 this] obtain r a2 ds2
        where rec: "backtrack n cw ?a1 ds1 = Some (Inr (r, a2, ds2))" and ok2: "store_ok cw ds2"
          and aok2: "assign_ok cw a2" and sub: "set (map fst ?a1) \<subseteq> set (map fst a2)"
        by blast
      from sub k1 have sub': "insert v (set (map fst a)) \<subseteq> insert v (set (map fst a2))"
        by auto
      show ?thesis
      proof (cases "r = None")
        case False
        with step rec have "try_values n cw v (w # rest) a ds = Some (Inr (r, a2, ds2))"
          by simp
        with ok2 aok2 sub' show ?thesis by blast
      next
        case True
        with step rec have step': "try_values n cw v (w # rest) a ds =
            try_values n cw v rest a2 ds2" by simp
        have "card (set (variables cw) - insert v (set (map fst a2)))
            \<le> card (set (variables cw) - insert v (set (map fst a)))"
          using sub' by (rule card_unassigned_mono)
        with card have "card (set (variables cw) - insert v (set (map fst a2))) < n" by simp
        from Cons.IH [OF ok2 aok2 lens this] obtain r' a' ds'
          where "try_values n cw v rest a2 ds2 = Some (Inr (r', a', ds'))" "store_ok cw ds'"
            "assign_ok cw a'" "insert v (set (map fst a2)) \<subseteq> insert v (set (map fst a'))"
          by blast
        with step' sub' show ?thesis by (simp only:) blast
      qed
    qed
  qed
qed

lemma backtrack_total:
  assumes wf: "well_formed cw"
  shows "store_ok cw ds \<Longrightarrow> assign_ok cw a
    \<Longrightarrow> card (set (variables cw) - set (map fst a)) < n
    \<Longrightarrow> \<exists>r a' ds'. backtrack n cw a ds = Some (Inr (r, a', ds')) \<and> store_ok cw ds' \<and>
          assign_ok cw a' \<and> set (map fst a) \<subseteq> set (map fst a')"
proof (induction n arbitrary: a ds)
  case 0
  then show ?case by simp
next
  case (Suc n)
  note ok = Suc.prems(1) and aok = Suc.prems(2) and card = Suc.prems(3)
  show ?case
  proof (cases "assignment_complete ds a")
    case True
    then have "backtrack (Suc n) cw a ds = Some (Inr (Some a, a, ds))"
      by (rule backtrack_complete)
    with ok aok show ?thesis by blast
  next
    case False
    show ?thesis
    proof (cases "select_unassigned_variable cw ds a")
      case None
      with False have "backtrack (Suc n) cw a ds = Some (Inr (Some a, a, ds))"
        by (rule backtrack_no_variable)
      with ok aok show ?thesis by blast
    next
      case (Some v)
      from select_unassigned_variable_Some [OF Some]
      have vk: "v \<in> set (map fst ds)" and va: "v \<notin> set (map fst a)" by simp_all
      from vk ok have v: "v \<in> set (variables cw)" by (simp add: store_ok_def)
      from order_domain_values_total [OF wf ok v, of a] obtain vals d
        where o: "order_domain_values cw ds v a = Inr vals" and d: "map_of ds v = Some d"
          and vd: "set vals = set d" by blast
      have lens: "\<forall>w\<in>set vals. int (length w) = var_length v"
        using store_ok_length [OF ok d] vd by blast
      from False Some o have step: "backtrack (Suc n) cw a ds = try_values n cw v vals a ds"
        by (rule backtrack_values)
      have "set (variables cw) - insert v (set (map fst a))
          \<subset> set (variables cw) - set (map fst a)"
        using v va by auto
      then have "card (set (variables cw) - insert v (set (map fst a)))
          < card (set (variables cw) - set (map fst a))"
        by (intro psubset_card_mono) simp_all
      with card have c: "card (set (variables cw) - insert v (set (map fst a))) < n" by simp
      from try_values_total [OF wf v Suc.IH ok aok lens c] obtain r a' ds'
        where "try_values n cw v vals a ds = Some (Inr (r, a', ds'))" "store_ok cw ds'"
          "assign_ok cw a'" "insert v (set (map fst a)) \<subseteq> insert v (set (map fst a'))"
        by blast
      with step va show ?thesis by (simp only:) blast
    qed
  qed
qed

lemma creator_store_ok:
  "\<exists>ds'. enforce_node_consistency (creator_init cw) = Inr ds' \<and> store_ok cw ds' \<and>
     shrinks (creator_init cw) ds'"
proof -
  from enforce_node_consistency_result [of "creator_init cw"] obtain ds'
    where r: "enforce_node_consistency (creator_init cw) = Inr ds'"
      and s: "shrinks (creator_init cw) ds'" and nc: "node_consistent ds'" by blast
  from s have "map fst ds' = variables cw"
    by (simp add: shrinks_def creator_init_keys)
  with nc have "store_ok cw ds'" by (simp add: store_ok_def)
  with r s show ?thesis by blast
qed

lemma solve_total:
  assumes wf: "well_formed cw" and fuel: "length (variables cw) < fuel"
  shows "\<exists>res. solve fuel cw = Some (Inr res)"
proof -
  from creator_store_ok [of cw] obtain ds1
    where 1: "enforce_node_consistency (creator_init cw) = Inr ds1" and ok1: "store_ok cw ds1"
    by blast
  have "None = None \<or> arcs_ok cw (the None)" by simp
  from ac3_total [OF wf ok1 this] obtain ir ds2
    where 2: "ac3 cw None ds1 = Inr (ir, ds2)" and s2: "shrinks ds1 ds2" by blast
  from ok1 s2 have ok2: "store_ok cw ds2" by (rule store_ok_shrinks)
  have "card (set (variables cw)) \<le> length (variables cw)" by (rule card_length)
  with fuel have "card (set (variables cw) - set (map fst ([] :: assignment))) < fuel" by simp
  from backtrack_total [OF wf ok2 assign_ok_Nil this] obtain r a' ds'
    where "backtrack fuel cw [] ds2 = Some (Inr (r, a', ds'))" by blast
  with 1 2 show ?thesis by (simp add: solve_def)
qed

lemma backtrack_empty_domains:
  assumes wf: "well_formed cw" and ok: "store_ok cw ds" and ne: "ds \<noteq> []"
    and empty: "\<And>x d. map_of ds x = Some d \<Longrightarrow> d = []"
  shows "backtrack (Suc n) cw [] ds = Some (Inr (None, [], ds))"
proof -
  from ne have nc: "\<not> assignment_complete ds []" by (simp add: assignment_complete_def)
  show ?thesis
  proof (cases "select_unassigned_variable cw ds []")
    case None
    then have "set (map fst ds) \<subseteq> set (map fst ([] :: assignment))"
      by (rule select_unassigned_variable_None)
    with ne show ?thesis by simp
  next
    case (Some v)
    from select_unassigned_variable_Some(1) [OF Some] ok
    have v: "v \<in> set (variables cw)" by (simp add: store_ok_def)
    from order_domain_values_total [OF wf ok v, of "[]"] obtain vals d
      where o: "order_domain_values cw ds v [] = Inr vals" and d: "map_of ds v = Some d"
        and vd: "set vals = set d" by blast
    from empty [OF d] vd have "vals = []" by simp
    with backtrack_values [OF nc Some o, of n] show ?thesis by (simp add: try_values_Nil)
  qed
qed

lemma solve_empty_vocabulary:
  assumes wf: "well_formed cw" and w: "words cw = []" and vs: "variables cw \<noteq> []"
  shows "solve (Suc n) cw = Some (Inr None)"
proof -
  from creator_store_ok [of cw] obtain ds1
    where 1: "enforce_node_consistency (creator_init cw) = Inr ds1" and ok1: "store_ok cw ds1"
      and s1: "shrinks (creator_init cw) ds1"
    by blast
  have "None = None \<or> arcs_ok cw (the None)" by simp
  from ac3_total [OF wf ok1 this] obtain ir ds2
    where 2: "ac3 cw None ds1 = Inr (ir, ds2)" and s2: "shrinks ds1 ds2" by blast
  from ok1 s2 have ok2: "store_ok cw ds2" by (rule store_ok_shrinks)
  from s1 s2 have s: "shrinks (creator_init cw) ds2" by (rule shrinks_trans)
  then have "map fst ds2 = variables cw" by (simp add: shrinks_def creator_init_keys)
  with vs have ne: "ds2 \<noteq> []" by auto
  have empty: "d = []" if "map_of ds2 x = Some d" for x d
  proof -
    from shrinks_back [OF s that] obtain d0
      where d0: "map_of (creator_init cw) x = Some d0" "set d \<subseteq> set d0" by blast
    from d0(1) have "(x, d0) \<in> set (creator_init cw)" by (rule map_of_SomeD)
    then have "d0 = words cw" by (auto simp: creator_init_def)
    with w d0(2) show ?thesis by simp
  qed
  from backtrack_empty_domains [where n = n, OF wf ok2 ne empty]
  have "backtrack (Suc n) cw [] ds2 = Some (Inr (None, [], ds2))" .
  with 1 2 show ?thesis by (simp add: solve_def)
qed

section \<open>The claims\<close>

subsection \<open>C10: a model without slots\<close>

text \<open>
  C10. When the Constraint Model has no slot, \<open>solve\<close> returns the empty assignment and
  not the no-solution signal, whatever the vocabulary: the store is empty, the empty dict
  is complete at once. This holds for every depth bound but 0.
\<close>

theorem solve_no_slots:
  "variables cw = [] \<Longrightarrow> solve (Suc n) cw = Some (Inr (Some []))"
  by (simp add: solve_def creator_init_def enforce_node_consistency_def ac3_def all_arcs_def
      assignment_complete_def backtrack_complete)

text \<open>The grid without slots and the vocabulary CAT.\<close>

theorem solve_no_slots_witness:
  "variables (crossing [''CAT'']\<lparr>variables := []\<rparr>) = [] \<and>
   solve (Suc 0) (crossing [''CAT'']\<lparr>variables := []\<rparr>) = Some (Inr (Some []))"
  using solve_no_slots [of "crossing [''CAT'']\<lparr>variables := []\<rparr>" 0] by simp

subsection \<open>C1: completeness of the search\<close>

text \<open>
  C1 says that the search returns a complete consistent assignment whenever one exists.
  On the grid \<open>bridge\<close> with the vocabulary \<open>bridge_words\<close> the assignment CD, EF, CXE is
  a solution, and \<open>solve\<close> returns the no-solution signal: the first word AB of the top
  row fails, the search below it leaves GH on the bottom row in the dict, and with that
  entry CD finds no column and GH is a repeated word.
\<close>

theorem solve_misses_solution:
  "spec_solution (bridge bridge_words)
     [(row_top, ''CD''), (row_bottom, ''EF''), (column, ''CXE'')] \<and>
   solve 4 (bridge bridge_words) = Some (Inr None)"
  by code_simp

subsection \<open>C3: the assignment after a failed search\<close>

text \<open>
  C3 says that a candidate that fails is removed from the assignment, so that a call
  that returns None leaves the dict with the keys it had on entry. On two separate
  cells and the vocabulary A, \<open>backtrack\<close> called with the empty dict returns None and
  leaves the first cell assigned: its word was consistent, the search below it
  failed, and only an inconsistent word is deleted.
\<close>

theorem backtrack_leaves_entry:
  "backtrack 3 (apart [''A'']) [] [(cell_a, [''A'']), (cell_b, [''A''])] =
     Some (Inr (None, [(cell_a, ''A'')], [(cell_a, [''A'']), (cell_b, [''A''])]))"
  by code_simp

subsection \<open>C5: the worklist of ac3\<close>

text \<open>
  C5 says that a seed list given by the caller is the worklist, so that the empty seed
  list processes no pair and changes no domain. On the crossing slots with the domains
  CAT, DOG, ACE, \<open>ac3\<close> called with the empty list revises every arc and removes DOG
  from both domains.
\<close>

theorem ac3_empty_seed_revises:
  "ac3 (crossing []) (Some [])
     [(slot_across, [''CAT'', ''DOG'', ''ACE'']), (slot_down, [''CAT'', ''DOG'', ''ACE''])] =
   Inr (True, [(slot_across, [''CAT'', ''ACE'']), (slot_down, [''CAT'', ''ACE''])])"
  by code_simp

subsection \<open>C6: the order of the candidate words\<close>

text \<open>
  C6 says that \<open>order_domain_values\<close> sorts by the number of values eliminated from
  the neighbours that are not assigned. With the top row assigned, CXE eliminates two
  words of the bottom row and AXC one, and \<open>order_domain_values\<close> puts CXE first:
  it counts the words of the assigned top row as well.
\<close>

theorem order_domain_values_counts_assigned:
  "order_domain_values (bridge [])
     [(row_top, [''CD'', ''CE'', ''EF'']), (row_bottom, [''CD'', ''CE'', ''EF'']),
      (column, [''AXC'', ''CXE''])] column [(row_top, ''CD'')] = Inr [''CXE'', ''AXC''] \<and>
   spec_eliminated (bridge [])
     [(row_top, [''CD'', ''CE'', ''EF'']), (row_bottom, [''CD'', ''CE'', ''EF'']),
      (column, [''AXC'', ''CXE''])] [(row_top, ''CD'')] column ''CXE'' = 2 \<and>
   spec_eliminated (bridge [])
     [(row_top, [''CD'', ''CE'', ''EF'']), (row_bottom, [''CD'', ''CE'', ''EF'']),
      (column, [''AXC'', ''CXE''])] [(row_top, ''CD'')] column ''AXC'' = 1"
  by code_simp

subsection \<open>C8: the consistency check\<close>

text \<open>
  C8 says that \<open>consistent\<close> returns False for every assignment with a word of the
  wrong length. The down slot holds CAT and the across slot the word A, too short for
  a slot of length 3: the check of the down slot reads offset 1 of the neighbour's
  word before the neighbour's length is looked at, and raises IndexError.
\<close>

theorem consistent_raises_on_short_word:
  "consistent (crossing []) [(slot_down, ''CAT''), (slot_across, ''A'')] = Inl IndexError"
  by code_simp

subsection \<open>C7: arc revision\<close>

text \<open>
  C7, amended. For slots x and y: when no overlap is defined between them, \<open>revise\<close>
  returns False and changes no domain. When the overlap is (ox, oy), both slots have a
  domain in the store, every word of x's domain is longer than ox and every word of y's
  domain is longer than oy (as they are once the store is node-consistent), \<open>revise\<close>
  leaves in x's domain the words that have a word of y's domain with the same letter at
  the overlap, in their order, changes no other domain and no key, and returns True
  exactly when some word of x's domain had no such partner.
\<close>

theorem revise_exact:
  "(overlaps cw (x, y) = None \<longrightarrow> revise cw x y ds = Inr (False, ds)) \<and>
   (\<forall>ox oy dx dy.
      overlaps cw (x, y) = Some (ox, oy) \<and> map_of ds x = Some dx \<and> map_of ds y = Some dy \<and>
      (\<forall>wx\<in>set dx. ox < length wx) \<and> (\<forall>wy\<in>set dy. oy < length wy) \<longrightarrow>
      (\<exists>ds'. revise cw x y ds =
               Inr (\<exists>wx\<in>set dx. \<not> (\<exists>wy\<in>set dy. wx ! ox = wy ! oy), ds') \<and>
             map fst ds' = map fst ds \<and>
             map_of ds' x = Some (filter (\<lambda>wx. \<exists>wy\<in>set dy. wx ! ox = wy ! oy) dx) \<and>
             (\<forall>z. z \<noteq> x \<longrightarrow> map_of ds' z = map_of ds z)))"
proof (intro conjI allI impI)
  show "revise cw x y ds = Inr (False, ds)" if "overlaps cw (x, y) = None"
    using that by (simp add: revise_def)
next
  fix ox oy dx dy
  assume h: "overlaps cw (x, y) = Some (ox, oy) \<and> map_of ds x = Some dx \<and>
    map_of ds y = Some dy \<and> (\<forall>wx\<in>set dx. ox < length wx) \<and> (\<forall>wy\<in>set dy. oy < length wy)"
  let ?sup = "\<lambda>wx. \<exists>wy\<in>set dy. wx ! ox = wy ! oy"
  let ?ds' = "AList.map_entry x (filter (\<lambda>w. w \<in> set dx \<longrightarrow> ?sup w)) ds"
  have loop: "revise_loop x (ox, oy) dx dy ds False = Inr (\<exists>w\<in>set dx. \<not> ?sup w, ?ds')"
    using h revise_loop_ok [of dx "(ox, oy)" dy x ds False] by simp
  have r: "revise cw x y ds = Inr (\<exists>w\<in>set dx. \<not> ?sup w, ?ds')"
    using h loop by (simp add: revise_def getitem_def)
  have "filter (\<lambda>w. w \<in> set dx \<longrightarrow> ?sup w) dx = filter ?sup dx"
    by (intro filter_cong) auto
  then have x: "map_of ?ds' x = Some (filter ?sup dx)"
    using h by (simp add: map_of_map_entry_same)
  show "\<exists>ds'. revise cw x y ds = Inr (\<exists>wx\<in>set dx. \<not> ?sup wx, ds') \<and>
      map fst ds' = map fst ds \<and> map_of ds' x = Some (filter ?sup dx) \<and>
      (\<forall>z. z \<noteq> x \<longrightarrow> map_of ds' z = map_of ds z)"
    using r x by (intro exI [of _ ?ds']) (simp add: map_fst_map_entry map_of_map_entry_other)
qed

text \<open>
  Two cells that do not meet, and the crossing slots with the domains CAT, DOG, ACE:
  DOG has no partner.
\<close>

theorem revise_exact_witness:
  "overlaps (apart []) (cell_a, cell_b) = None \<and>
   revise (apart []) cell_a cell_b [(cell_a, [''A'']), (cell_b, [''B''])] =
     Inr (False, [(cell_a, [''A'']), (cell_b, [''B''])]) \<and>
   overlaps (crossing []) (slot_across, slot_down) = Some (1, 0) \<and>
   (\<exists>ds'. revise (crossing []) slot_across slot_down
            [(slot_across, [''CAT'', ''DOG'', ''ACE'']), (slot_down, [''CAT'', ''DOG'', ''ACE''])] =
            Inr (True, ds') \<and>
          map fst ds' = [slot_across, slot_down] \<and>
          map_of ds' slot_across = Some [''CAT'', ''ACE''] \<and>
          map_of ds' slot_down = Some [''CAT'', ''DOG'', ''ACE''])"
proof -
  let ?D = "[(slot_across, [''CAT'', ''DOG'', ''ACE'']), (slot_down, [''CAT'', ''DOG'', ''ACE''])]"
  let ?E = "[(cell_a, [''A'']), (cell_b, [''B''])]"
  have a: "overlaps (apart []) (cell_a, cell_b) = None"
    by (simp add: apart_def)
  have ne: "slot_down \<noteq> slot_across"
    by (simp add: slot_across_def slot_down_def)
  have b: "overlaps (crossing []) (slot_across, slot_down) = Some (1, 0) \<and>
      map_of ?D slot_across = Some [''CAT'', ''DOG'', ''ACE''] \<and>
      map_of ?D slot_down = Some [''CAT'', ''DOG'', ''ACE''] \<and>
      (\<forall>wx\<in>set [''CAT'', ''DOG'', ''ACE'']. 1 < length wx) \<and>
      (\<forall>wy\<in>set [''CAT'', ''DOG'', ''ACE'']. 0 < length wy)"
    using ne by (simp add: crossing_def)
  have 1: "revise (apart []) cell_a cell_b ?E = Inr (False, ?E)"
    using revise_exact [of "apart []" cell_a cell_b ?E, THEN conjunct1] a by (rule mp)
  note 2 = revise_exact [of "crossing []" slot_across slot_down ?D, THEN conjunct2,
      THEN spec, THEN spec, THEN spec, THEN spec, THEN mp, OF b]
  then obtain ds' where r1: "revise (crossing []) slot_across slot_down ?D =
        Inr (\<exists>wx\<in>set [''CAT'', ''DOG'', ''ACE''].
               \<not> (\<exists>wy\<in>set [''CAT'', ''DOG'', ''ACE'']. wx ! 1 = wy ! 0), ds')"
      and r2: "map fst ds' = map fst ?D"
      and r3: "map_of ds' slot_across =
         Some (filter (\<lambda>wx. \<exists>wy\<in>set [''CAT'', ''DOG'', ''ACE'']. wx ! 1 = wy ! 0)
                 [''CAT'', ''DOG'', ''ACE''])"
      and r4: "\<forall>z. z \<noteq> slot_across \<longrightarrow> map_of ds' z = map_of ?D z"
    by (elim exE conjE)
  have d: "map_of ds' slot_down = Some [''CAT'', ''DOG'', ''ACE'']"
    using r4 [THEN spec, of slot_down] ne by simp
  have t: "revise (crossing []) slot_across slot_down ?D = Inr (True, ds')"
    using r1 by simp
  have x: "map_of ds' slot_across = Some [''CAT'', ''ACE'']"
    using r3 by simp
  have k: "map fst ds' = [slot_across, slot_down]"
    using r2 by simp
  have e: "\<exists>ds'. revise (crossing []) slot_across slot_down ?D = Inr (True, ds') \<and>
          map fst ds' = [slot_across, slot_down] \<and>
          map_of ds' slot_across = Some [''CAT'', ''ACE''] \<and>
          map_of ds' slot_down = Some [''CAT'', ''DOG'', ''ACE'']"
    using t k x d by (intro exI [of _ ds'] conjI)
  show ?thesis
    using a 1 b [THEN conjunct1] e by (intro conjI)
qed

text \<open>
  C7 as stated, for every store, fails: \<open>revise\<close> reads \<^verbatim>\<open>node[overlap[0]]\<close> and
  \<^verbatim>\<open>node2[overlap[1]]\<close> unguarded. On the crossing slots, whose overlap is (1, 0), with
  the domain A for the across slot and CAT for the down slot, it raises IndexError at
  \<^verbatim>\<open>'A'[1]\<close>: it neither removes the word A nor returns a boolean.
\<close>

theorem revise_raises_on_short_word:
  "overlaps (crossing []) (slot_across, slot_down) = Some (1, 0) \<and>
   map_of [(slot_across, [''A'']), (slot_down, [''CAT''])] slot_across = Some [''A''] \<and>
   map_of [(slot_across, [''A'']), (slot_down, [''CAT''])] slot_down = Some [''CAT''] \<and>
   revise (crossing []) slot_across slot_down [(slot_across, [''A'']), (slot_down, [''CAT''])] =
     Inl IndexError"
  by code_simp

subsection \<open>C2: what solve returns\<close>

text \<open>
  C2. Whenever \<open>solve\<close> returns an assignment, it has exactly one entry for every slot of
  the model, the assigned words are pairwise distinct, each is as long as its slot, and
  for every slot and every neighbour of it the overlap is defined, lies inside both
  words, and the two words carry the same letter there. This holds for every depth bound
  and needs no assumption on the model.
\<close>

theorem solve_result_sound:
  assumes "solve fuel cw = Some (Inr (Some a))"
  shows "distinct (map fst a) \<and> set (map fst a) = set (variables cw) \<and>
    distinct (map snd a) \<and>
    (\<forall>(x, wx)\<in>set a. int (length wx) = var_length x) \<and>
    (\<forall>x y wx wy. map_of a x = Some wx \<and> y \<in> set (neighbors cw x) \<and> map_of a y = Some wy
       \<longrightarrow> (\<exists>ox oy. overlaps cw (x, y) = Some (ox, oy) \<and> ox < length wx \<and>
             oy < length wy \<and> wx ! ox = wy ! oy))"
proof -
  from solve_backtrack [OF assms] obtain ds a' ds'
    where k: "map fst ds = variables cw"
      and b: "backtrack fuel cw [] ds = Some (Inr (Some a, a', ds'))"
    by blast
  have "keys_ok [] ds" by (simp add: keys_ok_def)
  with b have "search_post cw ds (Some a, a', ds')"
    using consistent_Nil by (rule backtrack_sound)
  then have a: "keys_ok a ds'" "consistent cw a = Inr True"
      "set (map fst a) = set (map fst ds)"
    by (auto simp: search_post_def)
  from a(2) have sc: "spec_consistent cw a" by (rule consistent_True)
  have 1: "distinct (map fst a)" using a(1) by (simp add: keys_ok_def)
  have 2: "set (map fst a) = set (variables cw)" using a(3) k by simp
  have 3: "distinct (map snd a)" using sc by (simp add: spec_consistent_def)
  have 4: "\<forall>(x, wx)\<in>set a. int (length wx) = var_length x"
    using sc by (simp add: spec_consistent_def list_all_iff)
  have 5: "\<forall>x y wx wy. map_of a x = Some wx \<and> y \<in> set (neighbors cw x) \<and>
      map_of a y = Some wy
       \<longrightarrow> (\<exists>ox oy. overlaps cw (x, y) = Some (ox, oy) \<and> ox < length wx \<and>
             oy < length wy \<and> wx ! ox = wy ! oy)"
    using spec_consistent_agree [OF sc] by blast
  from 1 2 3 4 5 show ?thesis by (intro conjI)
qed

text \<open>The crossing slots with CAT, DOG, ACE: \<open>solve\<close> returns CAT across and ACE down.\<close>

theorem solve_result_sound_witness:
  "solve 3 (crossing [''CAT'', ''DOG'', ''ACE'']) =
     Some (Inr (Some [(slot_across, ''CAT''), (slot_down, ''ACE'')])) \<and>
   set (map fst [(slot_across, ''CAT''), (slot_down, ''ACE'')]) =
     set (variables (crossing [''CAT'', ''DOG'', ''ACE''])) \<and>
   distinct (map snd [(slot_across, ''CAT''), (slot_down, ''ACE'')]) \<and>
   (\<exists>ox oy. overlaps (crossing [''CAT'', ''DOG'', ''ACE'']) (slot_across, slot_down) =
       Some (ox, oy) \<and> ox < length ''CAT'' \<and> oy < length ''ACE'' \<and> ''CAT'' ! ox = ''ACE'' ! oy)"
proof -
  let ?C = "crossing [''CAT'', ''DOG'', ''ACE'']"
  let ?A = "[(slot_across, ''CAT''), (slot_down, ''ACE'')]"
  have s: "solve 3 ?C = Some (Inr (Some ?A))" by code_simp
  note r = solve_result_sound [OF s]
  have ne: "slot_down \<noteq> slot_across" by (simp add: slot_across_def slot_down_def)
  have m: "map_of ?A slot_across = Some ''CAT'' \<and> slot_down \<in> set (neighbors ?C slot_across) \<and>
      map_of ?A slot_down = Some ''ACE''"
    using ne by (simp add: crossing_def)
  from r have "\<forall>x y wx wy. map_of ?A x = Some wx \<and> y \<in> set (neighbors ?C x) \<and>
      map_of ?A y = Some wy
       \<longrightarrow> (\<exists>ox oy. overlaps ?C (x, y) = Some (ox, oy) \<and> ox < length wx \<and>
             oy < length wy \<and> wx ! ox = wy ! oy)"
    by (elim conjE)
  then have 5: "\<exists>ox oy. overlaps ?C (slot_across, slot_down) = Some (ox, oy) \<and>
      ox < length ''CAT'' \<and> oy < length ''ACE'' \<and> ''CAT'' ! ox = ''ACE'' ! oy"
    using m by blast
  from r have 2: "set (map fst ?A) = set (variables ?C)" by (elim conjE)
  from r have 3: "distinct (map snd ?A)" by (elim conjE)
  from s 2 3 5 show ?thesis by (intro conjI)
qed

subsection \<open>C4: what a successful run of ac3 establishes\<close>

text \<open>
  C4, amended. Let the model be well-formed and the slots of the store be slots of the
  model. If \<open>ac3\<close> returns success, and it was called on all arcs (no worklist given, or
  an empty one) or every arc outside the given worklist was arc-consistent on entry, then
  on return the store has the slots it had, every ordered pair of a slot and a neighbour
  is arc-consistent, and every domain that was not empty on entry is a non-empty part of
  what it was.
\<close>

theorem ac3_success_arc_consistent:
  assumes "well_formed cw" and "set (map fst ds) \<subseteq> set (variables cw)"
    and "ac3 cw arcs ds = Inr (True, ds')"
    and "arcs \<in> {None, Some []} \<or> pending_or_consistent cw (the arcs) ds"
  shows "map fst ds' = map fst ds
    \<and> (\<forall>x\<in>set (map fst ds'). \<forall>y\<in>set (neighbors cw x). arc_consistent cw ds' x y)
    \<and> (\<forall>v d. map_of ds v = Some d \<and> d \<noteq> []
          \<longrightarrow> (\<exists>d'. map_of ds' v = Some d' \<and> d' \<noteq> [] \<and> set d' \<subseteq> set d))"
proof -
  let ?arcs = "if arcs = None \<or> arcs = Some [] then all_arcs cw ds else the arcs"
  have "ac3 cw arcs ds = ac3_loop cw ?arcs ds"
    by (simp add: ac3_def)
  with assms(3) have run: "ac3_loop cw ?arcs ds = Inr (True, ds')"
    by (simp only:)
  have "pending_or_consistent cw ?arcs ds"
  proof (cases "arcs = None \<or> arcs = Some []")
    case True
    then have "?arcs = all_arcs cw ds" by (simp only: if_True)
    then show ?thesis by (simp only: pending_all_arcs)
  next
    case False
    then have "?arcs = the arcs" by (simp only: if_False)
    moreover from False assms(4) have "pending_or_consistent cw (the arcs) ds" by auto
    ultimately show ?thesis by (simp only:)
  qed
  with run assms(1,2) have "pending_or_consistent cw [] ds'" by (rule ac3_loop_fixpoint)
  then have "\<forall>x\<in>set (map fst ds'). \<forall>y\<in>set (neighbors cw x). arc_consistent cw ds' x y"
    by (simp add: pending_or_consistent_def)
  moreover from run have "map fst ds' = map fst ds" by (rule ac3_loop_keys)
  moreover have "\<exists>d'. map_of ds' v = Some d' \<and> d' \<noteq> [] \<and> set d' \<subseteq> set d"
    if "map_of ds v = Some d" "d \<noteq> []" for v d
    using run that by (rule ac3_loop_nonempty)
  ultimately show ?thesis by blast
qed

text \<open>
  The theorem at the crossing grid, both domains CAT, DOG, ACE, called on all arcs: the
  run succeeds, both domains become CAT, ACE, and each slot is arc-consistent with the
  other.
\<close>

theorem ac3_success_arc_consistent_witness:
  "well_formed (crossing []) \<and>
   ac3 (crossing []) None
     [(slot_across, [''CAT'', ''DOG'', ''ACE'']), (slot_down, [''CAT'', ''DOG'', ''ACE''])] =
     Inr (True, [(slot_across, [''CAT'', ''ACE'']), (slot_down, [''CAT'', ''ACE''])]) \<and>
   arc_consistent (crossing []) [(slot_across, [''CAT'', ''ACE'']), (slot_down, [''CAT'', ''ACE''])]
     slot_across slot_down \<and>
   arc_consistent (crossing []) [(slot_across, [''CAT'', ''ACE'']), (slot_down, [''CAT'', ''ACE''])]
     slot_down slot_across \<and>
   (\<exists>d'. map_of [(slot_across, [''CAT'', ''ACE'']), (slot_down, [''CAT'', ''ACE''])] slot_down
           = Some d' \<and> d' \<noteq> [] \<and> set d' \<subseteq> set [''CAT'', ''DOG'', ''ACE''])"
proof -
  let ?D = "[(slot_across, [''CAT'', ''DOG'', ''ACE'']), (slot_down, [''CAT'', ''DOG'', ''ACE''])]"
  let ?E = "[(slot_across, [''CAT'', ''ACE'']), (slot_down, [''CAT'', ''ACE''])]"
  have ne: "slot_down \<noteq> slot_across"
    by (simp add: slot_across_def slot_down_def)
  have wf: "well_formed (crossing [])" by code_simp
  have keys: "set (map fst ?D) \<subseteq> set (variables (crossing []))"
    by (simp add: crossing_def)
  have run: "ac3 (crossing []) None ?D = Inr (True, ?E)" by code_simp
  have seed: "None \<in> {None, Some []} \<or> pending_or_consistent (crossing []) (the None) ?D"
    by simp
  note t = ac3_success_arc_consistent [OF wf keys run seed]
  have ka: "slot_across \<in> set (map fst ?E)" and kd: "slot_down \<in> set (map fst ?E)"
    by simp_all
  have na: "slot_down \<in> set (neighbors (crossing []) slot_across)"
    and nd: "slot_across \<in> set (neighbors (crossing []) slot_down)"
    using ne by (simp_all add: crossing_def)
  have a: "arc_consistent (crossing []) ?E slot_across slot_down"
    using t [THEN conjunct2, THEN conjunct1, THEN bspec, OF ka, THEN bspec, OF na] .
  have d: "arc_consistent (crossing []) ?E slot_down slot_across"
    using t [THEN conjunct2, THEN conjunct1, THEN bspec, OF kd, THEN bspec, OF nd] .
  have m: "map_of ?D slot_down = Some [''CAT'', ''DOG'', ''ACE''] \<and> [''CAT'', ''DOG'', ''ACE''] \<noteq> []"
    using ne by simp
  note e = t [THEN conjunct2, THEN conjunct2, THEN spec, THEN spec, THEN mp, OF m]
  from wf run a d e show ?thesis by (intro conjI)
qed

text \<open>
  C4 as stated fails twice. On the crossing grid with both domains empty on entry,
  \<open>ac3\<close> returns success and the domains are still empty. On the bridge grid, called on
  the single arc (top row, column) with domains AB, EF, AXA, it returns success although
  the bottom row is not arc-consistent with its neighbour the column: EF starts with E
  and AXA ends with A.
\<close>

theorem ac3_success_not_arc_consistent:
  "ac3 (crossing []) None [(slot_across, []), (slot_down, [])] =
     Inr (True, [(slot_across, []), (slot_down, [])]) \<and>
   well_formed (bridge []) \<and>
   ac3 (bridge []) (Some [(row_top, column)])
     [(row_top, [''AB'']), (row_bottom, [''EF'']), (column, [''AXA''])] =
     Inr (True, [(row_top, [''AB'']), (row_bottom, [''EF'']), (column, [''AXA''])]) \<and>
   column \<in> set (neighbors (bridge []) row_bottom) \<and>
   \<not> arc_consistent (bridge []) [(row_top, [''AB'']), (row_bottom, [''EF'']), (column, [''AXA''])]
       row_bottom column"
  by code_simp

subsection \<open>C9: exceptions\<close>

text \<open>
  C9, amended. On a well-formed model, with a depth bound above the number of slots:
  \<open>solve\<close> returns an assignment or the no-solution signal and raises nothing, for
  every vocabulary; with an empty vocabulary and at least one slot it returns the
  no-solution signal. \<open>enforce_node_consistency\<close> raises nothing on any store and
  leaves it node-consistent; on the store of a fresh creator the result is a store of
  the model. On a store of the model (node-consistent, its slots those of the model),
  \<open>revise\<close> on a slot and a neighbour, \<open>ac3\<close> on all arcs and on the arcs that the
  search seeds for a slot, and \<open>order_domain_values\<close> for a slot raise nothing, and
  the first two leave a store of the model. On an assignment that fits the model
  \<open>consistent\<close> raises nothing, and \<open>backtrack\<close> returns and raises nothing, leaving
  a store of the model and an assignment that fits. \<open>select_unassigned_variable\<close> has
  no raising path at all.
\<close>

theorem engine_raises_nothing:
  assumes wf: "well_formed cw" and fuel: "length (variables cw) < fuel"
  shows "(\<exists>result. solve fuel cw = Some (Inr result)) \<and>
    (words cw = [] \<and> variables cw \<noteq> [] \<longrightarrow> solve fuel cw = Some (Inr None)) \<and>
    (\<exists>ds'. enforce_node_consistency ds0 = Inr ds' \<and> node_consistent ds') \<and>
    (\<exists>ds'. enforce_node_consistency (creator_init cw) = Inr ds' \<and> store_ok cw ds') \<and>
    (store_ok cw ds \<longrightarrow>
       (\<forall>x\<in>set (variables cw). \<forall>y\<in>set (neighbors cw x).
          \<exists>changed ds'. revise cw x y ds = Inr (changed, ds') \<and> store_ok cw ds') \<and>
       (\<exists>ok ds'. ac3 cw None ds = Inr (ok, ds') \<and> store_ok cw ds') \<and>
       (\<forall>v\<in>set (variables cw).
          (\<exists>ok ds'. ac3 cw (Some (map (\<lambda>var. (var, v)) (neighbors cw v))) ds = Inr (ok, ds') \<and>
             store_ok cw ds') \<and>
          (\<exists>vals. order_domain_values cw ds v a = Inr vals)) \<and>
       (assign_ok cw a \<longrightarrow>
          (\<exists>b. consistent cw a = Inr b) \<and>
          (\<exists>result a' ds'. backtrack fuel cw a ds = Some (Inr (result, a', ds')) \<and>
             store_ok cw ds' \<and> assign_ok cw a')))"
proof (intro conjI impI ballI)
  show "\<exists>result. solve fuel cw = Some (Inr result)"
    using wf fuel by (rule solve_total)
next
  assume e: "words cw = [] \<and> variables cw \<noteq> []"
  from fuel obtain n where "fuel = Suc n" by (cases fuel) auto
  with solve_empty_vocabulary [OF wf, of n] e show "solve fuel cw = Some (Inr None)"
    by simp
next
  show "\<exists>ds'. enforce_node_consistency ds0 = Inr ds' \<and> node_consistent ds'"
    using enforce_node_consistency_result [of ds0] by blast
next
  show "\<exists>ds'. enforce_node_consistency (creator_init cw) = Inr ds' \<and> store_ok cw ds'"
    using creator_store_ok [of cw] by blast
next
  fix x y
  assume ok: "store_ok cw ds" and x: "x \<in> set (variables cw)" and y: "y \<in> set (neighbors cw x)"
  from revise_total [OF wf ok x y] obtain c ds1 where r: "revise cw x y ds = Inr (c, ds1)"
    by blast
  then have "shrinks ds ds1" by (rule revise_shrinks)
  with ok have "store_ok cw ds1" by (rule store_ok_shrinks)
  with r show "\<exists>changed ds'. revise cw x y ds = Inr (changed, ds') \<and> store_ok cw ds'" by blast
next
  assume ok: "store_ok cw ds"
  have "None = None \<or> arcs_ok cw (the None)" by simp
  from ac3_total [OF wf ok this] obtain b ds1
    where r: "ac3 cw None ds = Inr (b, ds1)" and "shrinks ds ds1" by blast
  with ok have "store_ok cw ds1" by (blast intro: store_ok_shrinks)
  with r show "\<exists>ok ds'. ac3 cw None ds = Inr (ok, ds') \<and> store_ok cw ds'" by blast
next
  fix v
  assume ok: "store_ok cw ds" and v: "v \<in> set (variables cw)"
  let ?seed = "Some (map (\<lambda>var. (var, v)) (neighbors cw v))"
  have "?seed = None \<or> arcs_ok cw (the ?seed)"
    using arcs_ok_seed [OF wf v] by simp
  from ac3_total [OF wf ok this] obtain b ds1
    where r: "ac3 cw ?seed ds = Inr (b, ds1)" and "shrinks ds ds1" by blast
  with ok have "store_ok cw ds1" by (blast intro: store_ok_shrinks)
  with r show "\<exists>ok ds'. ac3 cw ?seed ds = Inr (ok, ds') \<and> store_ok cw ds'" by blast
next
  fix v
  assume ok: "store_ok cw ds" and v: "v \<in> set (variables cw)"
  from order_domain_values_total [OF wf ok v, of a]
  show "\<exists>vals. order_domain_values cw ds v a = Inr vals" by blast
next
  assume "assign_ok cw a"
  with wf show "\<exists>b. consistent cw a = Inr b" by (rule consistent_total)
next
  assume ok: "store_ok cw ds" and aok: "assign_ok cw a"
  have "card (set (variables cw) - set (map fst a)) \<le> card (set (variables cw))"
    by (intro card_mono) auto
  also have "\<dots> \<le> length (variables cw)" by (rule card_length)
  finally have "card (set (variables cw) - set (map fst a)) < fuel" using fuel by simp
  from backtrack_total [OF wf ok aok this]
  show "\<exists>result a' ds'. backtrack fuel cw a ds = Some (Inr (result, a', ds')) \<and>
             store_ok cw ds' \<and> assign_ok cw a'" by blast
qed

text \<open>
  The theorem at the crossing grid with the vocabulary CAT, DOG, ACE, the store with
  both domains full, the assignment across = CAT and the depth bound 3; and at the
  crossing grid with the empty vocabulary, where \<open>solve\<close> gives the no-solution signal.
\<close>

theorem engine_raises_nothing_witness:
  "well_formed (crossing [''CAT'', ''DOG'', ''ACE'']) \<and>
   length (variables (crossing [''CAT'', ''DOG'', ''ACE''])) < 3 \<and>
   store_ok (crossing [''CAT'', ''DOG'', ''ACE''])
     [(slot_across, [''CAT'', ''DOG'', ''ACE'']), (slot_down, [''CAT'', ''DOG'', ''ACE''])] \<and>
   assign_ok (crossing [''CAT'', ''DOG'', ''ACE'']) [(slot_across, ''CAT'')] \<and>
   (\<exists>result. solve 3 (crossing [''CAT'', ''DOG'', ''ACE'']) = Some (Inr result)) \<and>
   (\<exists>changed ds'. revise (crossing [''CAT'', ''DOG'', ''ACE'']) slot_across slot_down
        [(slot_across, [''CAT'', ''DOG'', ''ACE'']), (slot_down, [''CAT'', ''DOG'', ''ACE''])] =
        Inr (changed, ds') \<and> store_ok (crossing [''CAT'', ''DOG'', ''ACE'']) ds') \<and>
   (\<exists>vals. order_domain_values (crossing [''CAT'', ''DOG'', ''ACE''])
        [(slot_across, [''CAT'', ''DOG'', ''ACE'']), (slot_down, [''CAT'', ''DOG'', ''ACE''])]
        slot_down [(slot_across, ''CAT'')] = Inr vals) \<and>
   (\<exists>b. consistent (crossing [''CAT'', ''DOG'', ''ACE'']) [(slot_across, ''CAT'')] = Inr b) \<and>
   (\<exists>result a' ds'. backtrack 3 (crossing [''CAT'', ''DOG'', ''ACE'']) [(slot_across, ''CAT'')]
        [(slot_across, [''CAT'', ''DOG'', ''ACE'']), (slot_down, [''CAT'', ''DOG'', ''ACE''])] =
        Some (Inr (result, a', ds')) \<and>
      store_ok (crossing [''CAT'', ''DOG'', ''ACE'']) ds' \<and>
      assign_ok (crossing [''CAT'', ''DOG'', ''ACE'']) a') \<and>
   well_formed (crossing []) \<and> words (crossing []) = [] \<and> variables (crossing []) \<noteq> [] \<and>
   solve 3 (crossing []) = Some (Inr None)"
proof -
  let ?cw = "crossing [''CAT'', ''DOG'', ''ACE'']"
  let ?D = "[(slot_across, [''CAT'', ''DOG'', ''ACE'']), (slot_down, [''CAT'', ''DOG'', ''ACE''])]"
  let ?A = "[(slot_across, ''CAT'')]"
  have ne: "slot_down \<noteq> slot_across"
    by (simp add: slot_across_def slot_down_def)
  have wf: "well_formed ?cw" by code_simp
  have wf0: "well_formed (crossing [])" by code_simp
  have f: "length (variables ?cw) < 3" by (simp add: crossing_def)
  have f0: "length (variables (crossing [])) < 3" by (simp add: crossing_def)
  have so: "store_ok ?cw ?D"
    using ne by (auto simp: store_ok_def node_consistent_def crossing_def slot_across_def
        slot_down_def)
  have ao: "assign_ok ?cw ?A"
    by (simp add: assign_ok_def crossing_def slot_across_def)
  have xa: "slot_across \<in> set (variables ?cw)" and xd: "slot_down \<in> set (variables ?cw)"
    by (simp_all add: crossing_def)
  have nb: "slot_down \<in> set (neighbors ?cw slot_across)"
    by (simp add: crossing_def)
  have e0: "words (crossing []) = [] \<and> variables (crossing []) \<noteq> []"
    by (simp add: crossing_def)
  note t = engine_raises_nothing [OF wf f, where ds = ?D and a = ?A]
  note s = t [THEN conjunct2, THEN conjunct2, THEN conjunct2, THEN conjunct2, THEN mp, OF so]
  note t1 = t [THEN conjunct1]
  note t2 = s [THEN conjunct1, THEN bspec, OF xa, THEN bspec, OF nb]
  note t3 = s [THEN conjunct2, THEN conjunct2, THEN conjunct1, THEN bspec, OF xd, THEN conjunct2]
  note u = s [THEN conjunct2, THEN conjunct2, THEN conjunct2, THEN mp, OF ao]
  note t4 = u [THEN conjunct1]
  note t5 = u [THEN conjunct2]
  note t6 = engine_raises_nothing [OF wf0 f0, THEN conjunct2, THEN conjunct1, THEN mp, OF e0]
  from wf f so ao t1 t2 t3 t4 t5 wf0 e0 t6 show ?thesis by (intro conjI) simp_all
qed

text \<open>
  C9 as stated, for every store that can be handed to an operation, fails. On the store
  of a fresh creator for the crossing grid with the vocabulary CAT, A, before node
  consistency has run, \<open>ac3\<close>, \<open>revise\<close> and \<open>order_domain_values\<close> raise IndexError
  at \<^verbatim>\<open>'A'[1]\<close>.
\<close>

theorem ac3_raises_before_node_consistency:
  "well_formed (crossing [''CAT'', ''A'']) \<and>
   ac3 (crossing [''CAT'', ''A'']) None (creator_init (crossing [''CAT'', ''A''])) =
     Inl IndexError \<and>
   revise (crossing [''CAT'', ''A'']) slot_across slot_down
     (creator_init (crossing [''CAT'', ''A''])) = Inl IndexError \<and>
   order_domain_values (crossing [''CAT'', ''A'']) (creator_init (crossing [''CAT'', ''A'']))
     slot_across [] = Inl IndexError"
  by code_simp

end
